theory Spec2Isabelle
  imports Complex_Main "HOL-Library.Multiset"
begin

section \<open>Data model\<close>

text \<open>
  A buffer (the range handed to \<open>parallelSort\<close>, the scratch array \<open>swap\<close>) is a list,
  addressed by offset. The source and the destination of a merge are always two different
  buffers, so they are two lists. An access outside a buffer is undefined behaviour in the
  source; here it is the error \<open>OutOfBounds\<close>, and every function that reads or writes
  through an index returns \<open>error + result\<close>. Values of type \<open>size_t\<close> are natural numbers,
  values of type \<open>int64_t\<close> are integers; the places where an unsigned subtraction is
  written in the source use \<open>usub\<close>, which wraps at \<open>2 ^ 64\<close>, and the conversions between
  the two types are \<open>to_size_t\<close> and \<open>to_int64\<close>.

  Values of type \<open>double\<close> are rational numbers, rounded the way IEEE 754 binary64 rounds:
  every conversion, quotient, product and sum of the source is \<open>fl\<close> of the exact result, the
  nearest number with a significand of 53 bits, ties to the even significand. The exponent
  is not bounded in the model, which has no infinity, no NaN and no subnormal number; the
  values of this program stay far inside the range of binary64, except for a quotient by
  \<open>0.0\<close>, whose value in the model is \<open>0\<close>: the source computes such a quotient only
  where it does not use the result.

  \<open>llround\<close> rounds to the nearest integer, halves away from zero. \<open>llround64\<close> is the
  function of the C library, whose result is an \<open>int64_t\<close>: for a value outside the range of
  \<open>int64_t\<close> the C standard leaves the result unspecified, and the model takes \<open>- 2 ^ 63\<close>,
  which is what the conversion instruction of x86-64 returns.
\<close>

datatype error = OutOfBounds | ZeroSegments | DivisionByZero

type_synonym 'a compFunc = "'a \<Rightarrow> 'a \<Rightarrow> bool"

definition usub :: "nat \<Rightarrow> nat \<Rightarrow> nat" where
  "usub x y = (if y \<le> x then x - y else (x + 2 ^ 64) - y)"

definition to_size_t :: "int \<Rightarrow> nat" where
  "to_size_t i = nat (i mod 2 ^ 64)"

definition to_int64 :: "nat \<Rightarrow> int" where
  "to_int64 n = (if n mod 2 ^ 64 < 2 ^ 63 then int (n mod 2 ^ 64) else int (n mod 2 ^ 64) - 2 ^ 64)"

definition llround :: "rat \<Rightarrow> int" where
  "llround x = (if 0 \<le> x then \<lfloor>x + 1 / 2\<rfloor> else \<lceil>x - 1 / 2\<rceil>)"

definition llround64 :: "rat \<Rightarrow> int" where
  "llround64 x =
     (if - (2 ^ 63) \<le> llround x \<and> llround x < 2 ^ 63 then llround x else - (2 ^ 63))"

text \<open>\<open>rne\<close>: the nearest integer, a tie going to the even one.\<close>

definition rne :: "rat \<Rightarrow> int" where
  "rne y =
     (let f = \<lfloor>y\<rfloor>; d = y - of_int f
      in if d < 1 / 2 then f else if 1 / 2 < d then f + 1 else if even f then f else f + 1)"

text \<open>
  The binary exponent of a positive number \<open>x\<close>, the \<open>e\<close> with \<open>2 ^ e \<le> x < 2 ^ (e + 1)\<close>:
  by halving when \<open>1 \<le> x\<close>, by doubling when \<open>x < 1\<close>.
\<close>

function bexp_up :: "rat \<Rightarrow> int" where
  "bexp_up x = (if x < 2 then 0 else bexp_up (x / 2) + 1)"
  by pat_completeness auto
termination
proof (relation "measure (\<lambda>x. nat \<lfloor>x\<rfloor>)")
  show "wf (measure (\<lambda>x :: rat. nat \<lfloor>x\<rfloor>))" by simp
next
  fix x :: rat
  assume "\<not> x < 2"
  then have "\<lfloor>x / 2\<rfloor> < \<lfloor>x\<rfloor>" "0 < \<lfloor>x\<rfloor>" by linarith+
  then show "(x / 2, x) \<in> measure (\<lambda>x. nat \<lfloor>x\<rfloor>)" by simp
qed

declare bexp_up.simps [simp del]

function bexp_down :: "rat \<Rightarrow> int" where
  "bexp_down x = (if x \<le> 0 \<or> 1 \<le> x then 0 else bexp_down (2 * x) - 1)"
  by pat_completeness auto
termination
proof (relation "measure (\<lambda>x. nat \<lceil>1 / x\<rceil>)")
  show "wf (measure (\<lambda>x :: rat. nat \<lceil>1 / x\<rceil>))" by simp
next
  fix x :: rat
  assume "\<not> (x \<le> 0 \<or> 1 \<le> x)"
  then have x: "0 < x" "x < 1" by simp_all
  define y where "y = 1 / x"
  have y1: "1 < y" using x by (simp add: y_def)
  have h: "1 / (2 * x) = y / 2" by (simp add: y_def)
  have "\<lceil>y / 2\<rceil> < \<lceil>y\<rceil>"
  proof (cases "2 \<le> y")
    case True
    then show ?thesis by linarith
  next
    case False
    then have "\<lceil>y / 2\<rceil> \<le> 1" by (simp add: ceiling_le_iff)
    moreover have "2 \<le> \<lceil>y\<rceil>" using y1 by linarith
    ultimately show ?thesis by linarith
  qed
  moreover have "0 < \<lceil>y\<rceil>" using y1 by linarith
  ultimately have "nat \<lceil>1 / (2 * x)\<rceil> < nat \<lceil>1 / x\<rceil>"
    unfolding h y_def[symmetric] by linarith
  then show "(2 * x, x) \<in> measure (\<lambda>x. nat \<lceil>1 / x\<rceil>)"
    unfolding in_measure .
qed

declare bexp_down.simps [simp del]

definition bexp :: "rat \<Rightarrow> int" where
  "bexp x = (if 1 \<le> x then bexp_up x else bexp_down x)"

text \<open>
  Rounding to binary64. A positive \<open>x\<close> with exponent \<open>e\<close> is scaled by \<open>2 ^ (52 - e)\<close> into
  \<open>[2 ^ 52, 2 ^ 53)\<close>, rounded to an integer and scaled back.
\<close>

definition fl_pos :: "rat \<Rightarrow> rat" where
  "fl_pos x = of_int (rne (x * 2 powi (52 - bexp x))) * 2 powi (bexp x - 52)"

definition fl :: "rat \<Rightarrow> rat" where
  "fl x = (if x = 0 then 0 else if 0 < x then fl_pos x else - fl_pos (- x))"

text \<open>The conversion of an integer (\<open>int64_t\<close>, \<open>size_t\<close> or \<open>int\<close>) to \<open>double\<close>.\<close>

definition to_double :: "int \<Rightarrow> rat" where
  "to_double i = fl (of_int i)"

text \<open>\<open>iDivUp\<close> (parallelSort.hpp, lines 30-33); a zero divisor is undefined in the source.\<close>

definition iDivUp :: "nat \<Rightarrow> nat \<Rightarrow> error + nat" where
  "iDivUp a b =
     (if b = 0 then Inl DivisionByZero
      else Inr (if a mod b = 0 then a div b else a div b + 1))"

definition slice :: "'a list \<Rightarrow> nat \<Rightarrow> nat \<Rightarrow> 'a list" where
  "slice xs i j = take (j - i) (drop i xs)"

text \<open>The comparator requirement of \<open>std::sort\<close>: a strict weak ordering.\<close>

definition equiv_under :: "'a compFunc \<Rightarrow> 'a \<Rightarrow> 'a \<Rightarrow> bool" where
  "equiv_under compFunc x y \<longleftrightarrow> \<not> compFunc x y \<and> \<not> compFunc y x"

definition strict_weak_order :: "'a compFunc \<Rightarrow> bool" where
  "strict_weak_order compFunc \<longleftrightarrow>
     (\<forall>x. \<not> compFunc x x) \<and>
     (\<forall>x y z. compFunc x y \<longrightarrow> compFunc y z \<longrightarrow> compFunc x z) \<and>
     (\<forall>x y z. equiv_under compFunc x y \<longrightarrow> equiv_under compFunc y z \<longrightarrow> equiv_under compFunc x z)"

text \<open>\<open>not_after compFunc x y\<close>: \<open>x\<close> may stand before \<open>y\<close> in a sorted range.\<close>

definition not_after :: "'a compFunc \<Rightarrow> 'a \<Rightarrow> 'a \<Rightarrow> bool" where
  "not_after compFunc x y \<longleftrightarrow> \<not> compFunc y x"

definition sorted_under :: "'a compFunc \<Rightarrow> 'a list \<Rightarrow> bool" where
  "sorted_under compFunc xs \<longleftrightarrow> sorted_wrt (not_after compFunc) xs"

section \<open>The sequential merge step: \<open>mergeFF\<close> (parallelSort.hpp, lines 42-60)\<close>

text \<open>
  The compare-and-copy loop of the first branch, \<open>while (aBeg <= aEnd)\<close>. It reads
  \<open>src[bBeg]\<close> without comparing \<open>bBeg\<close> with \<open>bEnd\<close>. The result is the destination
  together with the final \<open>bBeg\<close> and \<open>dBeg\<close>.
\<close>

function mergeFF_loopA ::
  "'a compFunc \<Rightarrow> 'a list \<Rightarrow> 'a list \<Rightarrow> nat \<Rightarrow> nat \<Rightarrow> nat \<Rightarrow> nat \<Rightarrow> error + ('a list \<times> nat \<times> nat)"
where
  "mergeFF_loopA compFunc src dst aBeg aEnd bBeg dBeg =
     (if aBeg \<le> aEnd then
        (if length src \<le> aBeg \<or> length src \<le> bBeg \<or> length dst \<le> dBeg then Inl OutOfBounds
         else if \<not> compFunc (src ! bBeg) (src ! aBeg)
           then mergeFF_loopA compFunc src (dst[dBeg := src ! aBeg]) (aBeg + 1) aEnd bBeg (dBeg + 1)
           else mergeFF_loopA compFunc src (dst[dBeg := src ! bBeg]) aBeg aEnd (bBeg + 1) (dBeg + 1))
      else Inr (dst, bBeg, dBeg))"
  by pat_completeness auto
termination
  by (relation "measure (\<lambda>(compFunc, src, dst, aBeg, aEnd, bBeg, dBeg).
        (aEnd + 1 - aBeg) + (length src - bBeg))") auto

declare mergeFF_loopA.simps [simp del]

text \<open>
  The compare-and-copy loop of the second branch, \<open>while (bBeg <= bEnd)\<close>, which reads
  \<open>src[aBeg]\<close> without comparing \<open>aBeg\<close> with \<open>aEnd\<close>. The result is the destination
  together with the final \<open>aBeg\<close> and \<open>dBeg\<close>.
\<close>

function mergeFF_loopB ::
  "'a compFunc \<Rightarrow> 'a list \<Rightarrow> 'a list \<Rightarrow> nat \<Rightarrow> nat \<Rightarrow> nat \<Rightarrow> nat \<Rightarrow> error + ('a list \<times> nat \<times> nat)"
where
  "mergeFF_loopB compFunc src dst aBeg bBeg bEnd dBeg =
     (if bBeg \<le> bEnd then
        (if length src \<le> aBeg \<or> length src \<le> bBeg \<or> length dst \<le> dBeg then Inl OutOfBounds
         else if compFunc (src ! aBeg) (src ! bBeg)
           then mergeFF_loopB compFunc src (dst[dBeg := src ! aBeg]) (aBeg + 1) bBeg bEnd (dBeg + 1)
           else mergeFF_loopB compFunc src (dst[dBeg := src ! bBeg]) aBeg (bBeg + 1) bEnd (dBeg + 1))
      else Inr (dst, aBeg, dBeg))"
  by pat_completeness auto
termination
  by (relation "measure (\<lambda>(compFunc, src, dst, aBeg, bBeg, bEnd, dBeg).
        (bEnd + 1 - bBeg) + (length src - aBeg))") auto

declare mergeFF_loopB.simps [simp del]

text \<open>The copy loops \<open>while (sBeg <= sEnd) *(dst + dBeg++) = *(src + sBeg++)\<close>.\<close>

function copy_rest :: "'a list \<Rightarrow> 'a list \<Rightarrow> nat \<Rightarrow> nat \<Rightarrow> nat \<Rightarrow> error + 'a list" where
  "copy_rest src dst sBeg sEnd dBeg =
     (if sBeg \<le> sEnd then
        (if length src \<le> sBeg \<or> length dst \<le> dBeg then Inl OutOfBounds
         else copy_rest src (dst[dBeg := src ! sBeg]) (sBeg + 1) sEnd (dBeg + 1))
      else Inr dst)"
  by pat_completeness auto
termination
  by (relation "measure (\<lambda>(src, dst, sBeg, sEnd, dBeg). sEnd + 1 - sBeg)") auto

declare copy_rest.simps [simp del]

definition mergeFF ::
  "'a list \<Rightarrow> 'a list \<Rightarrow> nat \<Rightarrow> nat \<Rightarrow> nat \<Rightarrow> nat \<Rightarrow> nat \<Rightarrow> 'a compFunc \<Rightarrow> error + 'a list"
where
  "mergeFF dst src aBeg aEnd bBeg bEnd dBeg compFunc =
     (if length src \<le> aEnd \<or> length src \<le> bEnd then Inl OutOfBounds
      else if compFunc (src ! aEnd) (src ! bEnd) then
        (case mergeFF_loopA compFunc src dst aBeg aEnd bBeg dBeg of
           Inl e \<Rightarrow> Inl e
         | Inr (dst', bBeg', dBeg') \<Rightarrow> copy_rest src dst' bBeg' bEnd dBeg')
      else
        (case mergeFF_loopB compFunc src dst aBeg bBeg bEnd dBeg of
           Inl e \<Rightarrow> Inl e
         | Inr (dst', aBeg', dBeg') \<Rightarrow> copy_rest src dst' aBeg' aEnd dBeg'))"

section \<open>The fork-join scheduler (parallelFor.hpp)\<close>

text \<open>
  The launch loop \<open>for (seg = 0; seg < num_segs - 1; seg++)\<close> of \<open>parallelFor\<close> and of
  \<open>parallelForNoWait\<close>, by recursion on the number of iterations that remain. Every iteration
  hands the segment \<open>[sBeg, llround(sEnd))\<close> to a new thread and moves on with
  \<open>sEnd += seg_size\<close>. The result is the list of launched segments with the final \<open>sBeg\<close> and
  \<open>sEnd\<close>.
\<close>

fun launch_loop :: "rat \<Rightarrow> nat \<Rightarrow> int \<Rightarrow> rat \<Rightarrow> (int \<times> int) list \<times> int \<times> rat" where
  "launch_loop seg_size 0 sBeg sEnd = ([], sBeg, sEnd)"
| "launch_loop seg_size (Suc k) sBeg sEnd =
     (case launch_loop seg_size k (llround64 sEnd) (fl (sEnd + seg_size)) of
        (segs, sBeg', sEnd') \<Rightarrow> ((sBeg, llround64 sEnd) # segs, sBeg', sEnd'))"

text \<open>
  The segments of one \<open>parallelFor\<close> call (lines 24-62), as pairs \<open>(lb, le)\<close> of offsets from
  \<open>begin\<close>: the launched ones in launch order, then the one the calling thread runs itself.
  With \<open>num_segs = 0\<close> and a non-empty range the source divides by zero and its loop bound
  \<open>num_segs - 1\<close> wraps around; that is the error \<open>ZeroSegments\<close>.
\<close>

definition parallelFor_segments :: "int \<Rightarrow> int \<Rightarrow> nat \<Rightarrow> error + (int \<times> int) list" where
  "parallelFor_segments begin end num_segs =
     (let n = to_size_t (end - begin) in
      if n = 0 then Inr []
      else
        let num_segs = (if n < num_segs then n else num_segs) in
        if num_segs = 0 then Inl ZeroSegments
        else
          let seg_size = fl (to_double (int n) / to_double (int num_segs)) in
          (case launch_loop seg_size (usub num_segs 1) 0 seg_size of
             (segs, sBeg, sEnd) \<Rightarrow> Inr (segs @ [(sBeg, llround64 sEnd)])))"

text \<open>The same for \<open>parallelForNoWait\<close> (lines 70-100), which has its own copy of the code.\<close>

definition parallelForNoWait_segments :: "int \<Rightarrow> int \<Rightarrow> nat \<Rightarrow> error + (int \<times> int) list" where
  "parallelForNoWait_segments begin end num_segs =
     (let n = to_size_t (end - begin) in
      if n = 0 then Inr []
      else
        let num_segs = (if n < num_segs then n else num_segs) in
        if num_segs = 0 then Inl ZeroSegments
        else
          let seg_size = fl (to_double (int n) / to_double (int num_segs)) in
          (case launch_loop seg_size (usub num_segs 1) 0 seg_size of
             (segs, sBeg, sEnd) \<Rightarrow> Inr (segs @ [(sBeg, llround64 sEnd)])))"

text \<open>The arguments of \<open>fn\<close> in one segment: \<open>for (i = lb; i < le; i++) fn(begin + i)\<close>.\<close>

definition segment_calls :: "int \<Rightarrow> int \<times> int \<Rightarrow> int list" where
  "segment_calls begin seg = map (\<lambda>i. begin + i) [fst seg ..  snd seg - 1]"

text \<open>All calls of \<open>fn\<close> that one \<open>parallelFor\<close> makes, segment after segment.\<close>

definition parallelFor_calls :: "int \<Rightarrow> int \<Rightarrow> nat \<Rightarrow> error + int list" where
  "parallelFor_calls begin end num_segs =
     (case parallelFor_segments begin end num_segs of
        Inl e \<Rightarrow> Inl e
      | Inr segs \<Rightarrow> Inr (concat (map (segment_calls begin) segs)))"

definition parallelForNoWait_calls :: "int \<Rightarrow> int \<Rightarrow> nat \<Rightarrow> error + int list" where
  "parallelForNoWait_calls begin end num_segs =
     (case parallelForNoWait_segments begin end num_segs of
        Inl e \<Rightarrow> Inl e
      | Inr segs \<Rightarrow> Inr (concat (map (segment_calls begin) segs)))"

text \<open>
  The effect of the calls on a state. The callbacks of this repository write to pairwise
  disjoint parts of the destination and read only what no other callback writes, so the
  interleaving of the threads does not matter; the model runs the calls one after the other,
  and the first error ends the run.
\<close>

fun run_calls :: "(int \<Rightarrow> 's \<Rightarrow> error + 's) \<Rightarrow> int list \<Rightarrow> 's \<Rightarrow> error + 's" where
  "run_calls fn [] s = Inr s"
| "run_calls fn (i # is) s = (case fn i s of Inl e \<Rightarrow> Inl e | Inr s' \<Rightarrow> run_calls fn is s')"

definition parallelFor :: "int \<Rightarrow> int \<Rightarrow> (int \<Rightarrow> 's \<Rightarrow> error + 's) \<Rightarrow> nat \<Rightarrow> 's \<Rightarrow> error + 's" where
  "parallelFor begin end fn num_segs s =
     (case parallelFor_calls begin end num_segs of
        Inl e \<Rightarrow> Inl e
      | Inr is \<Rightarrow> run_calls fn is s)"

text \<open>
  \<open>parallelForNoWait\<close> followed, later, by \<open>parallelForFinish\<close> (lines 102-108), which waits
  for the launched threads: in the sequential model the state after the join.
\<close>

definition parallelForNoWait :: "int \<Rightarrow> int \<Rightarrow> (int \<Rightarrow> 's \<Rightarrow> error + 's) \<Rightarrow> nat \<Rightarrow> 's \<Rightarrow> error + 's" where
  "parallelForNoWait begin end fn num_segs s =
     (case parallelForNoWait_calls begin end num_segs of
        Inl e \<Rightarrow> Inl e
      | Inr is \<Rightarrow> run_calls fn is s)"

text \<open>
  What the caller of a fork-join group sees when a callback fails. A callback either returns
  (\<open>None\<close>) or throws (\<open>Some e\<close>). The loop of a segment ends at the first throw. A launched
  segment runs inside \<open>std::async\<close>, which stores the exception in the future; the segment of
  the calling thread throws into \<open>parallelFor\<close> itself. The join is \<open>futures[seg].wait()\<close>,
  and \<open>wait\<close> returns nothing: only \<open>get\<close>, which the source never calls, would rethrow the
  stored exception.
\<close>

fun first_failure :: "(int \<Rightarrow> 'e option) \<Rightarrow> int list \<Rightarrow> 'e option" where
  "first_failure fn [] = None"
| "first_failure fn (i # is) = (case fn i of Some e \<Rightarrow> Some e | None \<Rightarrow> first_failure fn is)"

datatype 'e future = Future "'e option"

definition future_wait :: "'e future \<Rightarrow> unit" where
  "future_wait f = ()"

text \<open>The launched futures of a call and the outcome of the segment of the calling thread.\<close>

definition fork :: "int \<Rightarrow> (int \<Rightarrow> 'e option) \<Rightarrow> (int \<times> int) list \<Rightarrow> 'e future list \<times> 'e option" where
  "fork begin fn segs =
     (if segs = [] then ([], None)
      else (map (\<lambda>seg. Future (first_failure fn (segment_calls begin seg))) (butlast segs),
            first_failure fn (segment_calls begin (last segs))))"

text \<open>
  \<open>parallelFor_raises\<close>: the exception that leaves \<open>parallelFor\<close>, if any.
  \<open>parallelForFinish_raises\<close>: the exception that leaves \<open>parallelForFinish\<close>, if any, for
  the futures that \<open>parallelForNoWait\<close> returned.
\<close>

definition parallelFor_raises :: "int \<Rightarrow> int \<Rightarrow> (int \<Rightarrow> 'e option) \<Rightarrow> nat \<Rightarrow> error + 'e option" where
  "parallelFor_raises begin end fn num_segs =
     (case parallelFor_segments begin end num_segs of
        Inl e \<Rightarrow> Inl e
      | Inr segs \<Rightarrow>
          (case fork begin fn segs of
             (futures, Some e) \<Rightarrow> Inr (Some e)
           | (futures, None) \<Rightarrow> (case map future_wait futures of _ \<Rightarrow> Inr None)))"

definition parallelForFinish_raises :: "'e future list \<Rightarrow> 'e option" where
  "parallelForFinish_raises futuresNW = (case map future_wait futuresNW of _ \<Rightarrow> None)"

section \<open>The merge-path partitioner (parallelSort.hpp, lines 68-97)\<close>

text \<open>
  \<open>valA\<close> and \<open>valB\<close> are the pointers \<open>src + aBeg\<close> and \<open>src + bBeg\<close>; the model passes the
  buffer and the two offsets. The binary search of \<open>mergePath\<close>:
\<close>

function mergePath_loop ::
  "'a compFunc \<Rightarrow> 'a list \<Rightarrow> nat \<Rightarrow> nat \<Rightarrow> int \<Rightarrow> nat \<Rightarrow> nat \<Rightarrow> error + nat"
where
  "mergePath_loop compFunc src aOff bOff diag begin end =
     (if begin < end then
        (if length src \<le> aOff + (begin + (end - begin) div 2)
            \<or> length src \<le> bOff + to_size_t (diag - 1 - int (begin + (end - begin) div 2))
         then Inl OutOfBounds
         else if compFunc (src ! (aOff + (begin + (end - begin) div 2)))
                          (src ! (bOff + to_size_t (diag - 1 - int (begin + (end - begin) div 2))))
           then mergePath_loop compFunc src aOff bOff diag (begin + (end - begin) div 2 + 1) end
           else mergePath_loop compFunc src aOff bOff diag begin (begin + (end - begin) div 2))
      else Inr begin)"
  by pat_completeness auto
termination
  by (relation "measure (\<lambda>(compFunc, src, aOff, bOff, diag, begin, end). end - begin)") auto

declare mergePath_loop.simps [simp del]

definition mergePath ::
  "'a list \<Rightarrow> nat \<Rightarrow> int \<Rightarrow> nat \<Rightarrow> int \<Rightarrow> int \<Rightarrow> 'a compFunc \<Rightarrow> error + nat"
where
  "mergePath src aOff aCount bOff bCount diag compFunc =
     mergePath_loop compFunc src aOff bOff diag
       (to_size_t (max 0 (diag - bCount))) (to_size_t (min diag aCount))"

text \<open>
  The partition table \<open>size_t mpi[1024]\<close> is a list of 1024 entries; a write or read at an
  index outside \<open>0..1023\<close> is \<open>OutOfBounds\<close>.
\<close>

definition mpi_store :: "nat list \<Rightarrow> int \<Rightarrow> nat \<Rightarrow> error + nat list" where
  "mpi_store mpi i v =
     (if 0 \<le> i \<and> nat i < length mpi then Inr (mpi[nat i := v]) else Inl OutOfBounds)"

definition mpi_load :: "nat list \<Rightarrow> int \<Rightarrow> error + nat" where
  "mpi_load mpi i =
     (if 0 \<le> i \<and> nat i < length mpi then Inr (mpi ! nat i) else Inl OutOfBounds)"

text \<open>The loop \<open>for (int i = 1; i < partitions; i++)\<close> of \<open>getMergePaths\<close>.\<close>

function getMergePaths_loop ::
  "nat list \<Rightarrow> 'a list \<Rightarrow> nat \<Rightarrow> int \<Rightarrow> nat \<Rightarrow> int \<Rightarrow> rat \<Rightarrow> 'a compFunc \<Rightarrow> int \<Rightarrow> int
     \<Rightarrow> error + nat list"
where
  "getMergePaths_loop mpi src aOff aCount bOff bCount spacing compFunc partitions i =
     (if i < partitions then
        (case mergePath src aOff aCount bOff bCount (llround64 (fl (to_double i * spacing)))
                compFunc of
           Inl e \<Rightarrow> Inl e
         | Inr v \<Rightarrow>
             (case mpi_store mpi i v of
                Inl e \<Rightarrow> Inl e
              | Inr mpi' \<Rightarrow>
                  getMergePaths_loop mpi' src aOff aCount bOff bCount spacing compFunc partitions (i + 1)))
      else Inr mpi)"
  by pat_completeness auto
termination
  by (relation "measure (\<lambda>(mpi, src, aOff, aCount, bOff, bCount, spacing, compFunc, partitions, i).
        nat (partitions - i))") auto

declare getMergePaths_loop.simps [simp del]

definition getMergePaths ::
  "nat list \<Rightarrow> 'a list \<Rightarrow> nat \<Rightarrow> int \<Rightarrow> nat \<Rightarrow> int \<Rightarrow> rat \<Rightarrow> 'a compFunc \<Rightarrow> nat \<Rightarrow> error + nat list"
where
  "getMergePaths mpi src aOff aCount bOff bCount spacing compFunc threads =
     (let partitions = to_int64 threads in
      case mpi_store mpi 0 0 of
        Inl e \<Rightarrow> Inl e
      | Inr mpi1 \<Rightarrow>
          (case mpi_store mpi1 partitions (to_size_t aCount) of
             Inl e \<Rightarrow> Inl e
           | Inr mpi2 \<Rightarrow>
               getMergePaths_loop mpi2 src aOff aCount bOff bCount spacing compFunc partitions 1))"

section \<open>The parallel merge (parallelSort.hpp, lines 105-135)\<close>

text \<open>The copy loops \<open>for (size_t b = b0; b < b1; b++) dst[wtid++] = src[b]\<close>.\<close>

function copy_range :: "'a list \<Rightarrow> 'a list \<Rightarrow> nat \<Rightarrow> nat \<Rightarrow> nat \<Rightarrow> error + 'a list" where
  "copy_range src dst b b1 wtid =
     (if b < b1 then
        (if length src \<le> b \<or> length dst \<le> wtid then Inl OutOfBounds
         else copy_range src (dst[wtid := src ! b]) (b + 1) b1 (wtid + 1))
      else Inr dst)"
  by pat_completeness auto
termination
  by (relation "measure (\<lambda>(src, dst, b, b1, wtid). b1 - b)") auto

declare copy_range.simps [simp del]

text \<open>The body of the lambda that \<open>parallelMerge\<close> hands to \<open>parallelFor\<close>, for one \<open>thread\<close>.\<close>

definition merge_task ::
  "nat list \<Rightarrow> 'a list \<Rightarrow> nat \<Rightarrow> nat \<Rightarrow> nat \<Rightarrow> rat \<Rightarrow> 'a compFunc \<Rightarrow> int \<Rightarrow> 'a list \<Rightarrow> error + 'a list"
where
  "merge_task mpi src aBeg bBeg dBeg spacing compFunc thread dst =
     (case mpi_load mpi thread of
        Inl e \<Rightarrow> Inl e
      | Inr m0 \<Rightarrow>
          (case mpi_load mpi (thread + 1) of
             Inl e \<Rightarrow> Inl e
           | Inr m1 \<Rightarrow>
               (let dthread = to_double thread;
                    grid = to_size_t (llround64 (fl (dthread * spacing)));
                    a0 = m0 + aBeg;
                    a1 = m1 + aBeg;
                    b0 = usub grid m0 + bBeg;
                    b1 = usub (to_size_t (llround64 (fl (fl (dthread + 1) * spacing)))) m1 + bBeg;
                    wtid = dBeg + grid
                in if a0 = a1 then copy_range src dst b0 b1 wtid
                   else if b0 = b1 then copy_range src dst a0 a1 wtid
                   else mergeFF dst src a0 (usub a1 1) b0 (usub b1 1) wtid compFunc)))"

text \<open>
  \<open>parallelMerge\<close>. The table \<open>mpi\<close> is a fresh array on the stack; its entries are written
  before they are read, so its initial contents (here zeros) do not matter.
\<close>

definition parallelMerge ::
  "'a list \<Rightarrow> 'a list \<Rightarrow> nat \<Rightarrow> nat \<Rightarrow> nat \<Rightarrow> nat \<Rightarrow> nat \<Rightarrow> 'a compFunc \<Rightarrow> nat \<Rightarrow> error + 'a list"
where
  "parallelMerge dst src aBeg aEnd bBeg bEnd dBeg compFunc threads =
     (let aCount = to_int64 (usub aEnd aBeg + 1);
          bCount = to_int64 (usub bEnd bBeg + 1);
          spacing = fl (to_double (aCount + bCount) / to_double (int threads))
      in case getMergePaths (replicate 1024 0) src aBeg aCount bBeg bCount spacing compFunc threads of
           Inl e \<Rightarrow> Inl e
         | Inr mpi \<Rightarrow>
             parallelFor 0 (to_int64 threads)
               (merge_task mpi src aBeg bBeg dBeg spacing compFunc) threads dst)"

section \<open>The sort orchestrator: \<open>parallelSort\<close> (parallelSort.hpp, lines 236-334)\<close>

text \<open>
  The variant that is compiled is the one under \<open>#else\<close> (minimized thread launch), since
  \<open>DO_NOT_USE_BALANCED_MULTITHREADING\<close> is not defined.

  \<open>std::sort\<close> is a function of the C++ library, not of this repository: the model takes it as
  the parameter \<open>stdsort\<close>. \<open>sort_range\<close> is the call \<open>std::sort(begin + lb, begin + le, compFunc)\<close>.
\<close>

definition sort_range ::
  "('a compFunc \<Rightarrow> 'a list \<Rightarrow> 'a list) \<Rightarrow> 'a compFunc \<Rightarrow> int \<Rightarrow> int \<Rightarrow> 'a list \<Rightarrow> error + 'a list"
where
  "sort_range stdsort compFunc lb le buf =
     (if 0 \<le> lb \<and> lb \<le> le \<and> le \<le> int (length buf)
      then Inr (take (nat lb) buf @ stdsort compFunc (slice buf (nat lb) (nat le)) @ drop (nat le) buf)
      else Inl OutOfBounds)"

text \<open>
  The thread count that \<open>parallelSort\<close> works with (lines 239-247); \<open>hw\<close> is the value of
  \<open>std::thread::hardware_concurrency()\<close>.
\<close>

definition effective_threads :: "nat \<Rightarrow> nat \<Rightarrow> nat \<Rightarrow> nat" where
  "effective_threads hw len threads =
     (let threads = (if threads = 0 then hw else threads);
          max_threads = (len + 64) div 128;
          max_threads = (if max_threads > 1 then max_threads else 1)
      in if threads < max_threads then threads else max_threads)"

text \<open>
  The segment that worker \<open>i\<close> of the first phase sorts (lines 256-257), with the quotient and
  the two products taken exactly. The results below use it where the binary64 values are
  the exact ones: with one thread, and with a segment size that is a power of two.
\<close>

definition local_segment :: "nat \<Rightarrow> nat \<Rightarrow> int \<Rightarrow> int \<times> int" where
  "local_segment len threads i =
     (let delta = of_nat len / of_nat threads
      in (llround (of_int i * delta), llround ((of_int i + 1) * delta)))"

text \<open>
  \<open>(int64_t)ceil(log2(threads))\<close>: the least \<open>d\<close> with \<open>threads \<le> 2 ^ d\<close>.
\<close>

function ceil_log2 :: "nat \<Rightarrow> nat" where
  "ceil_log2 n = (if n \<le> 1 then 0 else 1 + ceil_log2 ((n + 1) div 2))"
  by pat_completeness auto
termination
  by (relation "measure id") auto

declare ceil_log2.simps [simp del]

text \<open>
  The thread budget of one merge round (lines 288-292 and 309-313): the number \<open>loops\<close> of full
  pairs, the start \<open>loStart\<close> of the leftover, \<open>pmThreads\<close> and \<open>loThreads\<close>.
\<close>

record budget =
  loops :: int
  loStart :: rat
  tasks :: int
  pmThreads :: int
  loThreads :: int

definition round_budget :: "nat \<Rightarrow> nat \<Rightarrow> rat \<Rightarrow> error + budget" where
  "round_budget threads len delta =
     (let loops = \<lfloor>fl (to_double (int len) / fl (2 * delta))\<rfloor>;
          loStart = fl (fl (to_double loops * 2) * delta);
          tasks = loops + (if llround64 loStart < int len then 1 else 0)
      in case iDivUp threads (to_size_t tasks) of
           Inl e \<Rightarrow> Inl e
         | Inr q \<Rightarrow>
             Inr \<lparr>loops = loops, loStart = loStart, tasks = tasks, pmThreads = to_int64 q,
                  loThreads = int threads - loops * to_int64 q\<rparr>)"

text \<open>
  One merge round from \<open>src\<close> into \<open>dst\<close> (lines 288-306, and again 309-328 with the two
  buffers exchanged): the full pairs through \<open>parallelForNoWait\<close>, then the leftover on the
  calling thread, then \<open>parallelForFinish\<close>.
\<close>

definition merge_round ::
  "'a compFunc \<Rightarrow> nat \<Rightarrow> rat \<Rightarrow> 'a list \<Rightarrow> 'a list \<Rightarrow> error + 'a list"
where
  "merge_round compFunc threads delta src dst =
     (let len = length src in
      case round_budget threads len delta of
        Inl e \<Rightarrow> Inl e
      | Inr b \<Rightarrow>
          (case parallelForNoWait 0 (loops b)
                  (\<lambda>i dst.
                     let lb = llround64 (fl (to_double (2 * i) * delta));
                         lm = llround64 (fl (to_double (2 * i + 1) * delta));
                         le = llround64 (fl (to_double (2 * i + 2) * delta))
                     in parallelMerge dst src (to_size_t lb) (to_size_t (lm - 1)) (to_size_t lm)
                          (to_size_t (le - 1)) (to_size_t lb) compFunc (to_size_t (pmThreads b)))
                  (to_size_t (loops b)) dst of
             Inl e \<Rightarrow> Inl e
           | Inr dst1 \<Rightarrow>
               if llround64 (loStart b) < int len then
                 (let mid = llround64 (fl (loStart b + delta));
                      mid = (if mid > int len then int len else mid)
                  in parallelMerge dst1 src (to_size_t (llround64 (loStart b))) (to_size_t (mid - 1))
                       (to_size_t mid) (usub len 1) (to_size_t (llround64 (loStart b))) compFunc
                       (to_size_t (loThreads b)))
               else Inr dst1))"

text \<open>
  The loop \<open>for (int64_t d = depth; d > 0; d -= 2)\<close>: a round from \<open>begin\<close> into \<open>swap\<close>, a round
  from \<open>swap\<close> back into \<open>begin\<close>, and \<open>delta *= 2.0\<close> after each.
\<close>

function merge_rounds ::
  "'a compFunc \<Rightarrow> nat \<Rightarrow> int \<Rightarrow> rat \<Rightarrow> 'a list \<Rightarrow> 'a list \<Rightarrow> error + ('a list \<times> 'a list)"
where
  "merge_rounds compFunc threads d delta begin swap =
     (if d > 0 then
        (case merge_round compFunc threads delta begin swap of
           Inl e \<Rightarrow> Inl e
         | Inr swap' \<Rightarrow>
             (case merge_round compFunc threads (fl (delta * 2)) swap' begin of
                Inl e \<Rightarrow> Inl e
              | Inr begin' \<Rightarrow>
                  merge_rounds compFunc threads (d - 2) (fl (fl (delta * 2) * 2)) begin' swap'))
      else Inr (begin, swap))"
  by pat_completeness auto
termination
  by (relation "measure (\<lambda>(compFunc, threads, d, delta, begin, swap). nat d)") auto

declare merge_rounds.simps [simp del]

text \<open>
  The result of a call: the caller's buffer, and the scratch buffer if one was allocated.
  \<open>new T[len]\<close> has indeterminate contents; the model takes them from the parameter
  \<open>garbage\<close>.
\<close>

record 'a sorted =
  buffer :: "'a list"
  scratch :: "'a list option"

definition parallelSort ::
  "('a compFunc \<Rightarrow> 'a list \<Rightarrow> 'a list) \<Rightarrow> nat \<Rightarrow> (nat \<Rightarrow> 'a) \<Rightarrow>
     'a list \<Rightarrow> 'a compFunc \<Rightarrow> nat \<Rightarrow> error + 'a sorted"
where
  "parallelSort stdsort hw garbage begin compFunc threads =
     (let len = length begin;
          threads = effective_threads hw len threads;
          delta = fl (to_double (int len) / to_double (int threads))
      in case parallelFor 0 (to_int64 threads)
                (\<lambda>i buf. case local_segment len threads i of
                            (lb, le) \<Rightarrow> sort_range stdsort compFunc lb le buf)
                threads begin of
           Inl e \<Rightarrow> Inl e
         | Inr begin1 \<Rightarrow>
             if threads \<le> 1 then Inr \<lparr>buffer = begin1, scratch = None\<rparr>
             else
               (case merge_rounds compFunc threads (int (ceil_log2 threads)) delta begin1
                       (map garbage [0 ..< len]) of
                  Inl e \<Rightarrow> Inl e
                | Inr (begin2, swap) \<Rightarrow> Inr \<lparr>buffer = begin2, scratch = Some swap\<rparr>))"

text \<open>
  The grid of a parallel merge of \<open>n\<close> elements on \<open>k\<close> workers: its \<open>i\<close>-th point is
  \<open>llround(i * spacing)\<close> with \<open>spacing = (double)n / (double)k\<close>, the diagonal that
  \<open>getMergePaths\<close> searches and the place where worker \<open>i\<close> starts to write.
\<close>

definition boundary :: "nat \<Rightarrow> nat \<Rightarrow> nat \<Rightarrow> int" where
  "boundary n k i =
     llround64 (fl (to_double (int i) * fl (to_double (int n) / to_double (int k))))"

text \<open>
  What the partitioner is meant to find. \<open>path_pred\<close> is the test of the binary search at the
  candidate \<open>i\<close>. \<open>is_split\<close> says that \<open>r\<close> lies in the search interval of the diagonal
  \<open>diag\<close>, that the test holds just below \<open>r\<close> and fails at \<open>r\<close>: taking \<open>r\<close> elements of A and
  \<open>diag - r\<close> elements of B is a consistent cut of the merge.
\<close>

definition path_pred :: "'a compFunc \<Rightarrow> 'a list \<Rightarrow> nat \<Rightarrow> nat \<Rightarrow> int \<Rightarrow> nat \<Rightarrow> bool" where
  "path_pred compFunc src aOff bOff diag i \<longleftrightarrow>
     compFunc (src ! (aOff + i)) (src ! (bOff + nat (diag - 1 - int i)))"

definition is_split ::
  "'a compFunc \<Rightarrow> 'a list \<Rightarrow> nat \<Rightarrow> int \<Rightarrow> nat \<Rightarrow> int \<Rightarrow> int \<Rightarrow> nat \<Rightarrow> bool"
where
  "is_split compFunc src aOff aCount bOff bCount diag r \<longleftrightarrow>
     nat (max 0 (diag - bCount)) \<le> r \<and> r \<le> nat (min diag aCount) \<and>
     (nat (max 0 (diag - bCount)) < r \<longrightarrow> path_pred compFunc src aOff bOff diag (r - 1)) \<and>
     (r < nat (min diag aCount) \<longrightarrow> \<not> path_pred compFunc src aOff bOff diag r)"

section \<open>Concrete comparators and a reference sort for the examples\<close>

text \<open>Pairs of a key and a tag, compared by key only: equal keys stay distinguishable.\<close>

definition by_key :: "nat \<times> nat \<Rightarrow> nat \<times> nat \<Rightarrow> bool" where
  "by_key x y \<longleftrightarrow> fst x < fst y"



section \<open>Strict weak orderings\<close>

lemma swo_irrefl: "strict_weak_order c \<Longrightarrow> \<not> c x x"
  by (simp add: strict_weak_order_def)

lemma swo_trans: "strict_weak_order c \<Longrightarrow> c x y \<Longrightarrow> c y z \<Longrightarrow> c x z"
  unfolding strict_weak_order_def by blast

lemma swo_asym: "strict_weak_order c \<Longrightarrow> c x y \<Longrightarrow> \<not> c y x"
  unfolding strict_weak_order_def by blast

lemma swo_neg_trans:
  assumes "strict_weak_order c" "c x z"
  shows "c x y \<or> c y z"
proof (rule ccontr)
  assume n: "\<not> (c x y \<or> c y z)"
  have "\<not> c y x" using assms n swo_trans[of c y x z] by blast
  moreover have "\<not> c z y" using assms n swo_trans[of c x z y] by blast
  ultimately have "equiv_under c x y" "equiv_under c y z" using n by (auto simp: equiv_under_def)
  then have "equiv_under c x z" using assms(1) unfolding strict_weak_order_def by blast
  then show False using assms(2) by (simp add: equiv_under_def)
qed

lemma not_after_refl: "strict_weak_order c \<Longrightarrow> not_after c x x"
  by (simp add: not_after_def swo_irrefl)

lemma not_after_trans:
  "strict_weak_order c \<Longrightarrow> not_after c x y \<Longrightarrow> not_after c y z \<Longrightarrow> not_after c x z"
  unfolding not_after_def using swo_neg_trans[of c z x y] by blast

lemma not_after_total: "strict_weak_order c \<Longrightarrow> not_after c x y \<or> not_after c y x"
  unfolding not_after_def using swo_asym[of c x y] by blast

lemma before_imp_not_after: "strict_weak_order c \<Longrightarrow> c x y \<Longrightarrow> not_after c x y"
  unfolding not_after_def using swo_asym[of c x y] by blast

lemma before_not_after: "strict_weak_order c \<Longrightarrow> c x y \<Longrightarrow> not_after c y z \<Longrightarrow> c x z"
  unfolding not_after_def using swo_neg_trans[of c x y z] by blast

lemma not_after_before: "strict_weak_order c \<Longrightarrow> not_after c x y \<Longrightarrow> c y z \<Longrightarrow> c x z"
  unfolding not_after_def using swo_neg_trans[of c y z x] by blast

section \<open>Slices of a buffer\<close>

lemma slice_Cons: "i < j \<Longrightarrow> i < length xs \<Longrightarrow> slice xs i j = xs ! i # slice xs (Suc i) j"
  unfolding slice_def
  by (metis Cons_nth_drop_Suc Suc_diff_Suc take_Suc_Cons)

lemma slice_empty [simp]: "j \<le> i \<Longrightarrow> slice xs i j = []"
  by (simp add: slice_def)

lemma length_slice [simp]: "j \<le> length xs \<Longrightarrow> length (slice xs i j) = j - i"
  by (simp add: slice_def)

lemma nth_slice: "j \<le> length xs \<Longrightarrow> k < j - i \<Longrightarrow> slice xs i j ! k = xs ! (i + k)"
  by (simp add: slice_def)

lemma sorted_slice_nth:
  assumes "strict_weak_order c" "sorted_under c (slice xs i j)" "j \<le> length xs"
    "i \<le> k" "k \<le> l" "l < j"
  shows "not_after c (xs ! k) (xs ! l)"
proof (cases "k = l")
  case True then show ?thesis using assms(1) by (simp add: not_after_refl)
next
  case False
  then have "k - i < l - i" "l - i < length (slice xs i j)" using assms by auto
  then have "not_after c (slice xs i j ! (k - i)) (slice xs i j ! (l - i))"
    using assms(2) unfolding sorted_under_def by (simp add: sorted_wrt_iff_nth_less)
  then show ?thesis using assms by (simp add: nth_slice)
qed

lemma sorted_slice_sub:
  assumes "sorted_under c (slice xs i j)" "i \<le> i'" 
  shows "sorted_under c (slice xs i' j)"
proof -
  have "slice xs i' j = drop (i' - i) (slice xs i j)"
    using assms(2) by (simp add: slice_def drop_take)
  then show ?thesis using assms(1) unfolding sorted_under_def by (simp add: sorted_wrt_drop)
qed

lemma slice_append: "i \<le> j \<Longrightarrow> j \<le> k \<Longrightarrow> slice xs i j @ slice xs j k = slice xs i k"
proof -
  assume a: "i \<le> j" "j \<le> k"
  have "slice xs j k = take (k - j) (drop (j - i) (drop i xs))" using a by (simp add: slice_def)
  moreover have "k - i = (j - i) + (k - j)" using a by simp
  ultimately show ?thesis unfolding slice_def by (simp only: take_add)
qed

lemma splice_take:
  "n + length out \<le> length dst \<Longrightarrow>
   take (n + length out) (take n dst @ out @ drop (n + length out) dst) = take n dst @ out"
  by simp

lemma splice_drop:
  "n + length out \<le> length dst \<Longrightarrow>
   drop (n + length out + k) (take n dst @ out @ drop (n + length out) dst) = drop (n + length out + k) dst"
  by (simp add: add.commute add.left_commute)

lemma splice_length:
  "n + length out \<le> length dst \<Longrightarrow> length (take n dst @ out @ drop (n + length out) dst) = length dst"
  by simp

lemma sorted_under_append:
  "sorted_under c (xs @ ys) \<longleftrightarrow>
     sorted_under c xs \<and> sorted_under c ys \<and> (\<forall>x\<in>set xs. \<forall>y\<in>set ys. not_after c x y)"
  by (simp add: sorted_under_def sorted_wrt_append)


section \<open>Correctness of the sequential merge step\<close>

lemma copy_rest_spec:
  "sBeg \<le> sEnd + 1 \<Longrightarrow> sEnd < length src \<Longrightarrow> dBeg + (sEnd + 1 - sBeg) \<le> length dst \<Longrightarrow>
   copy_rest src dst sBeg sEnd dBeg =
     Inr (take dBeg dst @ slice src sBeg (sEnd + 1) @ drop (dBeg + (sEnd + 1 - sBeg)) dst)"
proof (induction src dst sBeg sEnd dBeg rule: copy_rest.induct)
  case (1 src dst sBeg sEnd dBeg)
  show ?case
  proof (cases "sBeg \<le> sEnd")
    case False
    then have "sBeg = sEnd + 1" using "1.prems" by simp
    then show ?thesis by (subst copy_rest.simps) simp
  next
    case True
    then have nb: "\<not> (length src \<le> sBeg \<or> length dst \<le> dBeg)" using "1.prems" by auto
    let ?d1 = "dst[dBeg := src ! sBeg]"
    have ih: "copy_rest src ?d1 (sBeg + 1) sEnd (dBeg + 1) =
       Inr (take (dBeg + 1) ?d1 @ slice src (sBeg + 1) (sEnd + 1) @ drop (dBeg + 1 + (sEnd + 1 - (sBeg + 1))) ?d1)"
      using "1.IH"[OF True nb] True "1.prems" by simp
    have t: "take (dBeg + 1) ?d1 = take dBeg dst @ [src ! sBeg]"
      using nb by (simp add: take_Suc_conv_app_nth)
    have d: "drop (dBeg + 1 + (sEnd + 1 - (sBeg + 1))) ?d1 = drop (dBeg + (sEnd + 1 - sBeg)) dst"
    proof -
      have e: "dBeg + 1 + (sEnd + 1 - (sBeg + 1)) = dBeg + (sEnd + 1 - sBeg)" using True by arith
      have "dBeg < dBeg + (sEnd + 1 - sBeg)" using True by arith
      then have "drop (dBeg + (sEnd + 1 - sBeg)) ?d1 = drop (dBeg + (sEnd + 1 - sBeg)) dst"
        by (rule drop_update_cancel)
      then show ?thesis unfolding e .
    qed
    have s: "slice src sBeg (sEnd + 1) = src ! sBeg # slice src (sBeg + 1) (sEnd + 1)"
      using True nb by (simp add: slice_Cons)
    show ?thesis
      apply (subst copy_rest.simps)
      using True nb ih t d s by simp
  qed
qed

lemma splice_step:
  assumes "dBeg < length dst"
  shows "take (dBeg + 1) (dst[dBeg := v]) @ out @ drop (dBeg + 1 + length out) (dst[dBeg := v])
       = take dBeg dst @ (v # out) @ drop (dBeg + length (v # out)) dst"
proof -
  have "take (dBeg + 1) (dst[dBeg := v]) = take dBeg dst @ [v]"
    using assms by (simp add: take_Suc_conv_app_nth)
  moreover have "drop (dBeg + 1 + length out) (dst[dBeg := v]) = drop (dBeg + 1 + length out) dst"
    by (rule drop_update_cancel) simp
  ultimately show ?thesis by simp
qed

lemma sorted_under_Cons:
  "sorted_under c (x # xs) \<longleftrightarrow> (\<forall>y\<in>set xs. not_after c x y) \<and> sorted_under c xs"
  by (simp add: sorted_under_def)

lemma in_slice_nth:
  assumes "x \<in> set (slice xs i j)" "j \<le> length xs"
  obtains k where "i \<le> k" "k < j" "x = xs ! k"
proof -
  from assms obtain n where n: "n < length (slice xs i j)" "x = slice xs i j ! n"
    by (auto simp: in_set_conv_nth)
  then have "n < j - i" using assms(2) by simp
  then have "x = xs ! (i + n)" "i \<le> i + n" "i + n < j" using n assms(2) by (auto simp: nth_slice)
  then show ?thesis using that by blast
qed

lemma loopA_spec:
  "strict_weak_order c \<Longrightarrow> sorted_under c (slice src aBeg (aEnd + 1)) \<Longrightarrow> sorted_under c (slice src bBeg (bEnd + 1)) \<Longrightarrow>
    aEnd < length src \<Longrightarrow> bEnd < length src \<Longrightarrow> bBeg \<le> bEnd \<Longrightarrow> aBeg \<le> aEnd + 1 \<Longrightarrow>
    (aBeg \<le> aEnd \<longrightarrow> c (src ! aEnd) (src ! bEnd)) \<Longrightarrow>
    dBeg + (aEnd + 1 - aBeg) + (bEnd + 1 - bBeg) \<le> length dst \<Longrightarrow>
    \<exists>bBeg' out. mergeFF_loopA c src dst aBeg aEnd bBeg dBeg =
        Inr (take dBeg dst @ out @ drop (dBeg + length out) dst, bBeg', dBeg + length out) \<and>
      bBeg \<le> bBeg' \<and> bBeg' \<le> bEnd \<and>
      length out = (aEnd + 1 - aBeg) + (bBeg' - bBeg) \<and>
      sorted_under c out \<and>
      mset out = mset (slice src aBeg (aEnd + 1)) + mset (slice src bBeg bBeg') \<and>
      (\<forall>x\<in>set out. not_after c x (src ! bBeg'))"
proof (induction c src dst aBeg aEnd bBeg dBeg rule: mergeFF_loopA.induct)
  case (1 c src dst aBeg aEnd bBeg dBeg)
  note swo = "1.prems"(1)
  show ?case
  proof (cases "aBeg \<le> aEnd")
    case False
    then have e: "aBeg = aEnd + 1" using "1.prems" by simp
    have "mergeFF_loopA c src dst aBeg aEnd bBeg dBeg = Inr (dst, bBeg, dBeg)"
      using False by (subst mergeFF_loopA.simps) simp
    then show ?thesis
      using e "1.prems" by (intro exI[of _ bBeg] exI[of _ "[]"]) (simp add: sorted_under_def)
  next
    case True
    have inb: "\<not> (length src \<le> aBeg \<or> length src \<le> bBeg \<or> length dst \<le> dBeg)"
      using True "1.prems" by auto
    have g: "c (src ! aEnd) (src ! bEnd)" using True "1.prems" by simp
    have sA: "\<And>k l. aBeg \<le> k \<Longrightarrow> k \<le> l \<Longrightarrow> l \<le> aEnd \<Longrightarrow> not_after c (src ! k) (src ! l)"
      using sorted_slice_nth[OF swo "1.prems"(2), of _ _] "1.prems" by simp
    have sB: "\<And>k l. bBeg \<le> k \<Longrightarrow> k \<le> l \<Longrightarrow> l \<le> bEnd \<Longrightarrow> not_after c (src ! k) (src ! l)"
      using sorted_slice_nth[OF swo "1.prems"(3), of _ _] "1.prems" by simp
    show ?thesis
    proof (cases "\<not> c (src ! bBeg) (src ! aBeg)")
      case takeA: True
      let ?v = "src ! aBeg"
      let ?d1 = "dst[dBeg := ?v]"
      have "\<exists>bBeg' out. mergeFF_loopA c src ?d1 (aBeg + 1) aEnd bBeg (dBeg + 1) =
          Inr (take (dBeg + 1) ?d1 @ out @ drop (dBeg + 1 + length out) ?d1, bBeg', dBeg + 1 + length out) \<and>
          bBeg \<le> bBeg' \<and> bBeg' \<le> bEnd \<and>
          length out = (aEnd + 1 - (aBeg + 1)) + (bBeg' - bBeg) \<and>
          sorted_under c out \<and>
          mset out = mset (slice src (aBeg + 1) (aEnd + 1)) + mset (slice src bBeg bBeg') \<and>
          (\<forall>x\<in>set out. not_after c x (src ! bBeg'))"
      proof (rule "1.IH"(1)[OF True inb takeA swo])
        show "sorted_under c (slice src (aBeg + 1) (aEnd + 1))"
          using sorted_slice_sub[OF "1.prems"(2), of "aBeg + 1"] by simp
        show "sorted_under c (slice src bBeg (bEnd + 1))" by fact
        show "aEnd < length src" "bEnd < length src" "bBeg \<le> bEnd" by fact+
        show "aBeg + 1 \<le> aEnd + 1" using True by simp
        show "aBeg + 1 \<le> aEnd \<longrightarrow> c (src ! aEnd) (src ! bEnd)" using g by simp
        show "dBeg + 1 + (aEnd + 1 - (aBeg + 1)) + (bEnd + 1 - bBeg) \<le> length ?d1"
          using True "1.prems" by simp
      qed
      then obtain bBeg' out where r:
        "mergeFF_loopA c src ?d1 (aBeg + 1) aEnd bBeg (dBeg + 1) =
          Inr (take (dBeg + 1) ?d1 @ out @ drop (dBeg + 1 + length out) ?d1, bBeg', dBeg + 1 + length out)"
        "bBeg \<le> bBeg'" "bBeg' \<le> bEnd"
        "length out = (aEnd + 1 - (aBeg + 1)) + (bBeg' - bBeg)"
        "sorted_under c out"
        "mset out = mset (slice src (aBeg + 1) (aEnd + 1)) + mset (slice src bBeg bBeg')"
        "\<forall>x\<in>set out. not_after c x (src ! bBeg')" by blast
      have inb': "dBeg < length dst" using inb by simp
      have run: "mergeFF_loopA c src dst aBeg aEnd bBeg dBeg =
          Inr (take dBeg dst @ (?v # out) @ drop (dBeg + length (?v # out)) dst, bBeg', dBeg + length (?v # out))"
        apply (subst mergeFF_loopA.simps)
        using True inb takeA r(1) splice_step[OF inb', of ?v out] by simp
      have sl: "slice src aBeg (aEnd + 1) = ?v # slice src (aBeg + 1) (aEnd + 1)"
        using True inb by (simp add: slice_Cons)
      have vb: "not_after c ?v (src ! bBeg)" using takeA by (simp add: not_after_def)
      have le_out: "\<forall>y\<in>set out. not_after c ?v y"
      proof
        fix y assume "y \<in> set out"
        then have "y \<in># mset out" by simp
        then have "y \<in> set (slice src (aBeg + 1) (aEnd + 1)) \<or> y \<in> set (slice src bBeg bBeg')"
          unfolding r(6) by simp
        then show "not_after c ?v y"
        proof
          assume "y \<in> set (slice src (aBeg + 1) (aEnd + 1))"
          then obtain k where "aBeg + 1 \<le> k" "k < aEnd + 1" "y = src ! k"
            using in_slice_nth[of y src "aBeg + 1" "aEnd + 1"] "1.prems" by auto
          then show ?thesis using sA[of aBeg k] by simp
        next
          assume "y \<in> set (slice src bBeg bBeg')"
          then obtain k where "bBeg \<le> k" "k < bBeg'" "y = src ! k"
            using in_slice_nth[of y src bBeg bBeg'] "1.prems" r(3) by auto
          then have "not_after c (src ! bBeg) y" using sB[of bBeg k] r(3) by simp
          then show ?thesis using vb not_after_trans[OF swo] by blast
        qed
      qed
      have "not_after c ?v (src ! bBeg')"
        using vb sB[of bBeg bBeg'] r(2,3) not_after_trans[OF swo] by blast
      then have bound: "\<forall>x\<in>set (?v # out). not_after c x (src ! bBeg')" using r(7) by simp
      have len: "length (?v # out) = (aEnd + 1 - aBeg) + (bBeg' - bBeg)"
        using r(4) True by simp
      have srt: "sorted_under c (?v # out)" using le_out r(5) by (simp add: sorted_under_Cons)
      have ms: "mset (?v # out) = mset (slice src aBeg (aEnd + 1)) + mset (slice src bBeg bBeg')"
        using r(6) sl by simp
      show ?thesis
        using run r(2,3) len srt ms bound by blast
    next
      case takeB': False
      then have takeB: "c (src ! bBeg) (src ! aBeg)" by simp
      let ?v = "src ! bBeg"
      let ?d1 = "dst[dBeg := ?v]"
      have ne: "bBeg \<noteq> bEnd"
      proof
        assume "bBeg = bEnd"
        then have "c (src ! bEnd) (src ! aBeg)" using takeB by simp
        then have "c (src ! bEnd) (src ! aEnd)"
          using before_not_after[OF swo _ sA[of aBeg aEnd]] True by blast
        then show False using g swo_asym[OF swo] by blast
      qed
      have "\<exists>bBeg' out. mergeFF_loopA c src ?d1 aBeg aEnd (bBeg + 1) (dBeg + 1) =
          Inr (take (dBeg + 1) ?d1 @ out @ drop (dBeg + 1 + length out) ?d1, bBeg', dBeg + 1 + length out) \<and>
          bBeg + 1 \<le> bBeg' \<and> bBeg' \<le> bEnd \<and>
          length out = (aEnd + 1 - aBeg) + (bBeg' - (bBeg + 1)) \<and>
          sorted_under c out \<and>
          mset out = mset (slice src aBeg (aEnd + 1)) + mset (slice src (bBeg + 1) bBeg') \<and>
          (\<forall>x\<in>set out. not_after c x (src ! bBeg'))"
      proof (rule "1.IH"(2)[OF True inb takeB' swo])
        show "sorted_under c (slice src aBeg (aEnd + 1))" by fact
        show "sorted_under c (slice src (bBeg + 1) (bEnd + 1))"
          using sorted_slice_sub[OF "1.prems"(3), of "bBeg + 1"] by simp
        show "aEnd < length src" "bEnd < length src" "aBeg \<le> aEnd + 1" by fact+
        show "bBeg + 1 \<le> bEnd" using ne "1.prems" by simp
        show "aBeg \<le> aEnd \<longrightarrow> c (src ! aEnd) (src ! bEnd)" using g by simp
        show "dBeg + 1 + (aEnd + 1 - aBeg) + (bEnd + 1 - (bBeg + 1)) \<le> length ?d1"
          using True "1.prems" by simp
      qed
      then obtain bBeg' out where r:
        "mergeFF_loopA c src ?d1 aBeg aEnd (bBeg + 1) (dBeg + 1) =
          Inr (take (dBeg + 1) ?d1 @ out @ drop (dBeg + 1 + length out) ?d1, bBeg', dBeg + 1 + length out)"
        "bBeg + 1 \<le> bBeg'" "bBeg' \<le> bEnd"
        "length out = (aEnd + 1 - aBeg) + (bBeg' - (bBeg + 1))"
        "sorted_under c out"
        "mset out = mset (slice src aBeg (aEnd + 1)) + mset (slice src (bBeg + 1) bBeg')"
        "\<forall>x\<in>set out. not_after c x (src ! bBeg')" by blast
      have inb': "dBeg < length dst" using inb by simp
      have run: "mergeFF_loopA c src dst aBeg aEnd bBeg dBeg =
          Inr (take dBeg dst @ (?v # out) @ drop (dBeg + length (?v # out)) dst, bBeg', dBeg + length (?v # out))"
        apply (subst mergeFF_loopA.simps)
        using True inb takeB r(1) splice_step[OF inb', of ?v out] by simp
      have sl: "slice src bBeg bBeg' = ?v # slice src (bBeg + 1) bBeg'"
        using r(2) inb by (simp add: slice_Cons)
      have va: "not_after c ?v (src ! aBeg)" using takeB before_imp_not_after[OF swo] by blast
      have le_out: "\<forall>y\<in>set out. not_after c ?v y"
      proof
        fix y assume "y \<in> set out"
        then have "y \<in># mset out" by simp
        then have "y \<in> set (slice src aBeg (aEnd + 1)) \<or> y \<in> set (slice src (bBeg + 1) bBeg')"
          unfolding r(6) by simp
        then show "not_after c ?v y"
        proof
          assume "y \<in> set (slice src aBeg (aEnd + 1))"
          then obtain k where "aBeg \<le> k" "k < aEnd + 1" "y = src ! k"
            using in_slice_nth[of y src aBeg "aEnd + 1"] "1.prems" by auto
          then have "not_after c (src ! aBeg) y" using sA[of aBeg k] by simp
          then show ?thesis using va not_after_trans[OF swo] by blast
        next
          assume "y \<in> set (slice src (bBeg + 1) bBeg')"
          then obtain k where "bBeg + 1 \<le> k" "k < bBeg'" "y = src ! k"
            using in_slice_nth[of y src "bBeg + 1" bBeg'] "1.prems" r(3) by auto
          then show ?thesis using sB[of bBeg k] r(3) by simp
        qed
      qed
      have "not_after c ?v (src ! bBeg')" using sB[of bBeg bBeg'] r(2,3) by simp
      then have bound: "\<forall>x\<in>set (?v # out). not_after c x (src ! bBeg')" using r(7) by simp
      have len: "length (?v # out) = (aEnd + 1 - aBeg) + (bBeg' - bBeg)"
        using r(2,4) by simp
      have srt: "sorted_under c (?v # out)" using le_out r(5) by (simp add: sorted_under_Cons)
      have ms: "mset (?v # out) = mset (slice src aBeg (aEnd + 1)) + mset (slice src bBeg bBeg')"
        using r(6) sl by simp
      have "bBeg \<le> bBeg'" using r(2) by simp
      then show ?thesis
        using run r(3) len srt ms bound by blast
    qed
  qed
qed

lemma loopB_spec:
  "strict_weak_order c \<Longrightarrow> sorted_under c (slice src aBeg (aEnd + 1)) \<Longrightarrow> sorted_under c (slice src bBeg (bEnd + 1)) \<Longrightarrow>
    aEnd < length src \<Longrightarrow> bEnd < length src \<Longrightarrow> aBeg \<le> aEnd \<Longrightarrow> bBeg \<le> bEnd + 1 \<Longrightarrow>
    (bBeg \<le> bEnd \<longrightarrow> \<not> c (src ! aEnd) (src ! bEnd)) \<Longrightarrow>
    dBeg + (aEnd + 1 - aBeg) + (bEnd + 1 - bBeg) \<le> length dst \<Longrightarrow>
    \<exists>aBeg' out. mergeFF_loopB c src dst aBeg bBeg bEnd dBeg =
        Inr (take dBeg dst @ out @ drop (dBeg + length out) dst, aBeg', dBeg + length out) \<and>
      aBeg \<le> aBeg' \<and> aBeg' \<le> aEnd \<and>
      length out = (bEnd + 1 - bBeg) + (aBeg' - aBeg) \<and>
      sorted_under c out \<and>
      mset out = mset (slice src aBeg aBeg') + mset (slice src bBeg (bEnd + 1)) \<and>
      (\<forall>x\<in>set out. not_after c x (src ! aBeg'))"
proof (induction c src dst aBeg bBeg bEnd dBeg rule: mergeFF_loopB.induct)
  case (1 c src dst aBeg bBeg bEnd dBeg)
  note swo = "1.prems"(1)
  show ?case
  proof (cases "bBeg \<le> bEnd")
    case False
    then have e: "bBeg = bEnd + 1" using "1.prems" by simp
    have "mergeFF_loopB c src dst aBeg bBeg bEnd dBeg = Inr (dst, aBeg, dBeg)"
      using False by (subst mergeFF_loopB.simps) simp
    then show ?thesis
      using e "1.prems" by (intro exI[of _ aBeg] exI[of _ "[]"]) (simp add: sorted_under_def)
  next
    case True
    have inb: "\<not> (length src \<le> aBeg \<or> length src \<le> bBeg \<or> length dst \<le> dBeg)"
      using True "1.prems" by auto
    have g: "\<not> c (src ! aEnd) (src ! bEnd)" using True "1.prems" by simp
    have sA: "\<And>k l. aBeg \<le> k \<Longrightarrow> k \<le> l \<Longrightarrow> l \<le> aEnd \<Longrightarrow> not_after c (src ! k) (src ! l)"
      using sorted_slice_nth[OF swo "1.prems"(2), of _ _] "1.prems" by simp
    have sB: "\<And>k l. bBeg \<le> k \<Longrightarrow> k \<le> l \<Longrightarrow> l \<le> bEnd \<Longrightarrow> not_after c (src ! k) (src ! l)"
      using sorted_slice_nth[OF swo "1.prems"(3), of _ _] "1.prems" by simp
    show ?thesis
    proof (cases "c (src ! aBeg) (src ! bBeg)")
      case takeA: True
      let ?v = "src ! aBeg"
      let ?d1 = "dst[dBeg := ?v]"
      have ne: "aBeg \<noteq> aEnd"
      proof
        assume "aBeg = aEnd"
        then have "c (src ! aEnd) (src ! bBeg)" using takeA by simp
        then have "c (src ! aEnd) (src ! bEnd)"
          using before_not_after[OF swo _ sB[of bBeg bEnd]] True by blast
        then show False using g by blast
      qed
      have "\<exists>aBeg' out. mergeFF_loopB c src ?d1 (aBeg + 1) bBeg bEnd (dBeg + 1) =
          Inr (take (dBeg + 1) ?d1 @ out @ drop (dBeg + 1 + length out) ?d1, aBeg', dBeg + 1 + length out) \<and>
          aBeg + 1 \<le> aBeg' \<and> aBeg' \<le> aEnd \<and>
          length out = (bEnd + 1 - bBeg) + (aBeg' - (aBeg + 1)) \<and>
          sorted_under c out \<and>
          mset out = mset (slice src (aBeg + 1) aBeg') + mset (slice src bBeg (bEnd + 1)) \<and>
          (\<forall>x\<in>set out. not_after c x (src ! aBeg'))"
      proof (rule "1.IH"(1)[OF True inb takeA swo])
        show "sorted_under c (slice src (aBeg + 1) (aEnd + 1))"
          using sorted_slice_sub[OF "1.prems"(2), of "aBeg + 1"] by simp
        show "sorted_under c (slice src bBeg (bEnd + 1))" by fact
        show "aEnd < length src" "bEnd < length src" "bBeg \<le> bEnd + 1" by fact+
        show "aBeg + 1 \<le> aEnd" using ne "1.prems" by simp
        show "bBeg \<le> bEnd \<longrightarrow> \<not> c (src ! aEnd) (src ! bEnd)" using g by simp
        show "dBeg + 1 + (aEnd + 1 - (aBeg + 1)) + (bEnd + 1 - bBeg) \<le> length ?d1"
          using True "1.prems" by simp
      qed
      then obtain aBeg' out where r:
        "mergeFF_loopB c src ?d1 (aBeg + 1) bBeg bEnd (dBeg + 1) =
          Inr (take (dBeg + 1) ?d1 @ out @ drop (dBeg + 1 + length out) ?d1, aBeg', dBeg + 1 + length out)"
        "aBeg + 1 \<le> aBeg'" "aBeg' \<le> aEnd"
        "length out = (bEnd + 1 - bBeg) + (aBeg' - (aBeg + 1))"
        "sorted_under c out"
        "mset out = mset (slice src (aBeg + 1) aBeg') + mset (slice src bBeg (bEnd + 1))"
        "\<forall>x\<in>set out. not_after c x (src ! aBeg')" by blast
      have inb': "dBeg < length dst" using inb by simp
      have run: "mergeFF_loopB c src dst aBeg bBeg bEnd dBeg =
          Inr (take dBeg dst @ (?v # out) @ drop (dBeg + length (?v # out)) dst, aBeg', dBeg + length (?v # out))"
        apply (subst mergeFF_loopB.simps)
        using True inb takeA r(1) splice_step[OF inb', of ?v out] by simp
      have sl: "slice src aBeg aBeg' = ?v # slice src (aBeg + 1) aBeg'"
        using r(2) inb by (simp add: slice_Cons)
      have vb: "not_after c ?v (src ! bBeg)" using takeA before_imp_not_after[OF swo] by blast
      have le_out: "\<forall>y\<in>set out. not_after c ?v y"
      proof
        fix y assume "y \<in> set out"
        then have "y \<in># mset out" by simp
        then have "y \<in> set (slice src (aBeg + 1) aBeg') \<or> y \<in> set (slice src bBeg (bEnd + 1))"
          unfolding r(6) by simp
        then show "not_after c ?v y"
        proof
          assume "y \<in> set (slice src (aBeg + 1) aBeg')"
          then obtain k where "aBeg + 1 \<le> k" "k < aBeg'" "y = src ! k"
            using in_slice_nth[of y src "aBeg + 1" aBeg'] "1.prems" r(3) by auto
          then show ?thesis using sA[of aBeg k] r(3) by simp
        next
          assume "y \<in> set (slice src bBeg (bEnd + 1))"
          then obtain k where "bBeg \<le> k" "k < bEnd + 1" "y = src ! k"
            using in_slice_nth[of y src bBeg "bEnd + 1"] "1.prems" by auto
          then have "not_after c (src ! bBeg) y" using sB[of bBeg k] by simp
          then show ?thesis using vb not_after_trans[OF swo] by blast
        qed
      qed
      have "not_after c ?v (src ! aBeg')" using sA[of aBeg aBeg'] r(2,3) by simp
      then have bound: "\<forall>x\<in>set (?v # out). not_after c x (src ! aBeg')" using r(7) by simp
      have len: "length (?v # out) = (bEnd + 1 - bBeg) + (aBeg' - aBeg)"
        using r(2,4) by simp
      have srt: "sorted_under c (?v # out)" using le_out r(5) by (simp add: sorted_under_Cons)
      have ms: "mset (?v # out) = mset (slice src aBeg aBeg') + mset (slice src bBeg (bEnd + 1))"
        using r(6) sl by simp
      have "aBeg \<le> aBeg'" using r(2) by simp
      then show ?thesis
        using run r(3) len srt ms bound by blast
    next
      case takeB: False
      let ?v = "src ! bBeg"
      let ?d1 = "dst[dBeg := ?v]"
      have "\<exists>aBeg' out. mergeFF_loopB c src ?d1 aBeg (bBeg + 1) bEnd (dBeg + 1) =
          Inr (take (dBeg + 1) ?d1 @ out @ drop (dBeg + 1 + length out) ?d1, aBeg', dBeg + 1 + length out) \<and>
          aBeg \<le> aBeg' \<and> aBeg' \<le> aEnd \<and>
          length out = (bEnd + 1 - (bBeg + 1)) + (aBeg' - aBeg) \<and>
          sorted_under c out \<and>
          mset out = mset (slice src aBeg aBeg') + mset (slice src (bBeg + 1) (bEnd + 1)) \<and>
          (\<forall>x\<in>set out. not_after c x (src ! aBeg'))"
      proof (rule "1.IH"(2)[OF True inb takeB swo])
        show "sorted_under c (slice src aBeg (aEnd + 1))" by fact
        show "sorted_under c (slice src (bBeg + 1) (bEnd + 1))"
          using sorted_slice_sub[OF "1.prems"(3), of "bBeg + 1"] by simp
        show "aEnd < length src" "bEnd < length src" "aBeg \<le> aEnd" by fact+
        show "bBeg + 1 \<le> bEnd + 1" using True by simp
        show "bBeg + 1 \<le> bEnd \<longrightarrow> \<not> c (src ! aEnd) (src ! bEnd)" using g by simp
        show "dBeg + 1 + (aEnd + 1 - aBeg) + (bEnd + 1 - (bBeg + 1)) \<le> length ?d1"
          using True "1.prems" by simp
      qed
      then obtain aBeg' out where r:
        "mergeFF_loopB c src ?d1 aBeg (bBeg + 1) bEnd (dBeg + 1) =
          Inr (take (dBeg + 1) ?d1 @ out @ drop (dBeg + 1 + length out) ?d1, aBeg', dBeg + 1 + length out)"
        "aBeg \<le> aBeg'" "aBeg' \<le> aEnd"
        "length out = (bEnd + 1 - (bBeg + 1)) + (aBeg' - aBeg)"
        "sorted_under c out"
        "mset out = mset (slice src aBeg aBeg') + mset (slice src (bBeg + 1) (bEnd + 1))"
        "\<forall>x\<in>set out. not_after c x (src ! aBeg')" by blast
      have inb': "dBeg < length dst" using inb by simp
      have run: "mergeFF_loopB c src dst aBeg bBeg bEnd dBeg =
          Inr (take dBeg dst @ (?v # out) @ drop (dBeg + length (?v # out)) dst, aBeg', dBeg + length (?v # out))"
        apply (subst mergeFF_loopB.simps)
        using True inb takeB r(1) splice_step[OF inb', of ?v out] by simp
      have sl: "slice src bBeg (bEnd + 1) = ?v # slice src (bBeg + 1) (bEnd + 1)"
        using True inb by (simp add: slice_Cons)
      have va: "not_after c ?v (src ! aBeg)" using takeB by (simp add: not_after_def)
      have le_out: "\<forall>y\<in>set out. not_after c ?v y"
      proof
        fix y assume "y \<in> set out"
        then have "y \<in># mset out" by simp
        then have "y \<in> set (slice src aBeg aBeg') \<or> y \<in> set (slice src (bBeg + 1) (bEnd + 1))"
          unfolding r(6) by simp
        then show "not_after c ?v y"
        proof
          assume "y \<in> set (slice src aBeg aBeg')"
          then obtain k where "aBeg \<le> k" "k < aBeg'" "y = src ! k"
            using in_slice_nth[of y src aBeg aBeg'] "1.prems" r(3) by auto
          then have "not_after c (src ! aBeg) y" using sA[of aBeg k] r(3) by simp
          then show ?thesis using va not_after_trans[OF swo] by blast
        next
          assume "y \<in> set (slice src (bBeg + 1) (bEnd + 1))"
          then obtain k where "bBeg + 1 \<le> k" "k < bEnd + 1" "y = src ! k"
            using in_slice_nth[of y src "bBeg + 1" "bEnd + 1"] "1.prems" by auto
          then show ?thesis using sB[of bBeg k] by simp
        qed
      qed
      have "not_after c ?v (src ! aBeg')"
        using va sA[of aBeg aBeg'] r(2,3) not_after_trans[OF swo] by blast
      then have bound: "\<forall>x\<in>set (?v # out). not_after c x (src ! aBeg')" using r(7) by simp
      have len: "length (?v # out) = (bEnd + 1 - bBeg) + (aBeg' - aBeg)"
        using r(4) True by simp
      have srt: "sorted_under c (?v # out)" using le_out r(5) by (simp add: sorted_under_Cons)
      have ms: "mset (?v # out) = mset (slice src aBeg aBeg') + mset (slice src bBeg (bEnd + 1))"
        using r(6) sl by simp
      show ?thesis
        using run r(2,3) len srt ms bound by blast
    qed
  qed
qed

lemma mergeFF_run:
  assumes swo: "strict_weak_order compFunc"
    and ab: "aBeg \<le> aEnd" "aEnd < length src"
    and bb: "bBeg \<le> bEnd" "bEnd < length src"
    and sa: "sorted_under compFunc (slice src aBeg (aEnd + 1))"
    and sb: "sorted_under compFunc (slice src bBeg (bEnd + 1))"
    and room: "dBeg + ((aEnd - aBeg + 1) + (bEnd - bBeg + 1)) \<le> length dst"
  shows "\<exists>run. mergeFF dst src aBeg aEnd bBeg bEnd dBeg compFunc =
            Inr (take dBeg dst @ run @ drop (dBeg + length run) dst) \<and>
          length run = (aEnd - aBeg + 1) + (bEnd - bBeg + 1) \<and>
          sorted_under compFunc run \<and>
          mset run = mset (slice src aBeg (aEnd + 1)) + mset (slice src bBeg (bEnd + 1))"
proof (cases "compFunc (src ! aEnd) (src ! bEnd)")
  case True
  have room': "dBeg + (aEnd + 1 - aBeg) + (bEnd + 1 - bBeg) \<le> length dst"
    using room ab bb by simp
  have g: "aBeg \<le> aEnd \<longrightarrow> compFunc (src ! aEnd) (src ! bEnd)" using True by simp
  have ab1: "aBeg \<le> aEnd + 1" using ab by simp
  from loopA_spec[OF swo sa sb ab(2) bb(2) bb(1) ab1 g room']
  obtain bBeg' out where r:
    "mergeFF_loopA compFunc src dst aBeg aEnd bBeg dBeg =
        Inr (take dBeg dst @ out @ drop (dBeg + length out) dst, bBeg', dBeg + length out)"
    "bBeg \<le> bBeg'" "bBeg' \<le> bEnd"
    "length out = (aEnd + 1 - aBeg) + (bBeg' - bBeg)"
    "sorted_under compFunc out"
    "mset out = mset (slice src aBeg (aEnd + 1)) + mset (slice src bBeg bBeg')"
    "\<forall>x\<in>set out. not_after compFunc x (src ! bBeg')" by blast
  let ?d1 = "take dBeg dst @ out @ drop (dBeg + length out) dst"
  let ?rest = "slice src bBeg' (bEnd + 1)"
  have fit: "dBeg + length out \<le> length dst" using r(2,3,4) room' by simp
  have lrest: "length ?rest = bEnd + 1 - bBeg'" using bb by simp
  have ld1: "length ?d1 = length dst" using fit by (rule splice_length)
  have "copy_rest src ?d1 bBeg' bEnd (dBeg + length out) =
      Inr (take (dBeg + length out) ?d1 @ ?rest @ drop (dBeg + length out + (bEnd + 1 - bBeg')) ?d1)"
  proof (rule copy_rest_spec)
    show "bBeg' \<le> bEnd + 1" using r(3) by simp
    show "bEnd < length src" by fact
    show "dBeg + length out + (bEnd + 1 - bBeg') \<le> length ?d1"
      unfolding ld1 using r(2,3,4) room' by simp
  qed
  then have cp: "copy_rest src ?d1 bBeg' bEnd (dBeg + length out) =
      Inr (take dBeg dst @ (out @ ?rest) @ drop (dBeg + length (out @ ?rest)) dst)"
    unfolding splice_take[OF fit] splice_drop[OF fit] using lrest
    by (simp add: add.assoc)
  have res: "mergeFF dst src aBeg aEnd bBeg bEnd dBeg compFunc =
      Inr (take dBeg dst @ (out @ ?rest) @ drop (dBeg + length (out @ ?rest)) dst)"
  proof -
    have "mergeFF dst src aBeg aEnd bBeg bEnd dBeg compFunc =
        (case mergeFF_loopA compFunc src dst aBeg aEnd bBeg dBeg of
           Inl e \<Rightarrow> Inl e
         | Inr (dst', bBeg', dBeg') \<Rightarrow> copy_rest src dst' bBeg' bEnd dBeg')"
      unfolding mergeFF_def using True ab bb by simp
    also have "\<dots> = copy_rest src ?d1 bBeg' bEnd (dBeg + length out)"
      unfolding r(1) by (simp only: sum.case prod.case)
    finally show ?thesis unfolding cp .
  qed
  have len: "length (out @ ?rest) = (aEnd - aBeg + 1) + (bEnd - bBeg + 1)"
    using r(2,3,4) lrest ab bb by simp
  have srest: "sorted_under compFunc ?rest" using sorted_slice_sub[OF sb r(2)] .
  have cross: "\<forall>x\<in>set out. \<forall>y\<in>set ?rest. not_after compFunc x y"
  proof (intro ballI)
    fix x y assume x: "x \<in> set out" and y: "y \<in> set ?rest"
    from y obtain k where k: "bBeg' \<le> k" "k < bEnd + 1" "y = src ! k"
      using in_slice_nth[of y src bBeg' "bEnd + 1"] bb by auto
    have "not_after compFunc (src ! bBeg') y"
      using sorted_slice_nth[OF swo sb _ r(2) k(1), of ] k bb by simp
    then show "not_after compFunc x y" using r(7) x not_after_trans[OF swo] by blast
  qed
  have srt: "sorted_under compFunc (out @ ?rest)"
    using r(5) srest cross by (simp add: sorted_under_append)
  have ms: "mset (out @ ?rest) = mset (slice src aBeg (aEnd + 1)) + mset (slice src bBeg (bEnd + 1))"
  proof -
    have "slice src bBeg bBeg' @ ?rest = slice src bBeg (bEnd + 1)"
      using r(2,3) by (intro slice_append) simp_all
    then have "mset (slice src bBeg bBeg') + mset ?rest = mset (slice src bBeg (bEnd + 1))"
      by (metis mset_append)
    then show ?thesis using r(6) by (simp add: add.assoc)
  qed
  show ?thesis using res len srt ms by blast
next
  case False
  have room': "dBeg + (aEnd + 1 - aBeg) + (bEnd + 1 - bBeg) \<le> length dst"
    using room ab bb by simp
  have g: "bBeg \<le> bEnd \<longrightarrow> \<not> compFunc (src ! aEnd) (src ! bEnd)" using False by simp
  have bb1: "bBeg \<le> bEnd + 1" using bb by simp
  from loopB_spec[OF swo sa sb ab(2) bb(2) ab(1) bb1 g room']
  obtain aBeg' out where r:
    "mergeFF_loopB compFunc src dst aBeg bBeg bEnd dBeg =
        Inr (take dBeg dst @ out @ drop (dBeg + length out) dst, aBeg', dBeg + length out)"
    "aBeg \<le> aBeg'" "aBeg' \<le> aEnd"
    "length out = (bEnd + 1 - bBeg) + (aBeg' - aBeg)"
    "sorted_under compFunc out"
    "mset out = mset (slice src aBeg aBeg') + mset (slice src bBeg (bEnd + 1))"
    "\<forall>x\<in>set out. not_after compFunc x (src ! aBeg')" by blast
  let ?d1 = "take dBeg dst @ out @ drop (dBeg + length out) dst"
  let ?rest = "slice src aBeg' (aEnd + 1)"
  have fit: "dBeg + length out \<le> length dst" using r(2,3,4) room' by simp
  have lrest: "length ?rest = aEnd + 1 - aBeg'" using ab by simp
  have ld1: "length ?d1 = length dst" using fit by (rule splice_length)
  have "copy_rest src ?d1 aBeg' aEnd (dBeg + length out) =
      Inr (take (dBeg + length out) ?d1 @ ?rest @ drop (dBeg + length out + (aEnd + 1 - aBeg')) ?d1)"
  proof (rule copy_rest_spec)
    show "aBeg' \<le> aEnd + 1" using r(3) by simp
    show "aEnd < length src" by fact
    show "dBeg + length out + (aEnd + 1 - aBeg') \<le> length ?d1"
      unfolding ld1 using r(2,3,4) room' by simp
  qed
  then have cp: "copy_rest src ?d1 aBeg' aEnd (dBeg + length out) =
      Inr (take dBeg dst @ (out @ ?rest) @ drop (dBeg + length (out @ ?rest)) dst)"
    unfolding splice_take[OF fit] splice_drop[OF fit] using lrest
    by (simp add: add.assoc)
  have res: "mergeFF dst src aBeg aEnd bBeg bEnd dBeg compFunc =
      Inr (take dBeg dst @ (out @ ?rest) @ drop (dBeg + length (out @ ?rest)) dst)"
  proof -
    have "mergeFF dst src aBeg aEnd bBeg bEnd dBeg compFunc =
        (case mergeFF_loopB compFunc src dst aBeg bBeg bEnd dBeg of
           Inl e \<Rightarrow> Inl e
         | Inr (dst', aBeg', dBeg') \<Rightarrow> copy_rest src dst' aBeg' aEnd dBeg')"
      unfolding mergeFF_def using False ab bb by simp
    also have "\<dots> = copy_rest src ?d1 aBeg' aEnd (dBeg + length out)"
      unfolding r(1) by (simp only: sum.case prod.case)
    finally show ?thesis unfolding cp .
  qed
  have len: "length (out @ ?rest) = (aEnd - aBeg + 1) + (bEnd - bBeg + 1)"
    using r(2,3,4) lrest ab bb by simp
  have srest: "sorted_under compFunc ?rest" using sorted_slice_sub[OF sa r(2)] .
  have cross: "\<forall>x\<in>set out. \<forall>y\<in>set ?rest. not_after compFunc x y"
  proof (intro ballI)
    fix x y assume x: "x \<in> set out" and y: "y \<in> set ?rest"
    from y obtain k where k: "aBeg' \<le> k" "k < aEnd + 1" "y = src ! k"
      using in_slice_nth[of y src aBeg' "aEnd + 1"] ab by auto
    have "not_after compFunc (src ! aBeg') y"
      using sorted_slice_nth[OF swo sa _ r(2) k(1), of ] k ab by simp
    then show "not_after compFunc x y" using r(7) x not_after_trans[OF swo] by blast
  qed
  have srt: "sorted_under compFunc (out @ ?rest)"
    using r(5) srest cross by (simp add: sorted_under_append)
  have ms: "mset (out @ ?rest) = mset (slice src aBeg (aEnd + 1)) + mset (slice src bBeg (bEnd + 1))"
  proof -
    have "slice src aBeg aBeg' @ ?rest = slice src aBeg (aEnd + 1)"
      using r(2,3) by (intro slice_append) simp_all
    then have "mset (slice src aBeg aBeg') + mset ?rest = mset (slice src aBeg (aEnd + 1))"
      by (metis mset_append)
    then show ?thesis using r(6) by (simp add: add.assoc add.commute add.left_commute)
  qed
  show ?thesis using res len srt ms by blast
qed

text \<open>
  Claim C4. If the inclusive ranges \<open>[aBeg, aEnd]\<close> and \<open>[bBeg, bEnd]\<close> of the source are both
  sorted under a strict weak ordering and non-empty, and the destination has room, then
  \<open>mergeFF\<close> returns, changes the destination only in the run of
  \<open>(aEnd - aBeg + 1) + (bEnd - bBeg + 1)\<close> elements that starts at \<open>dBeg\<close>, and that run is sorted
  and is a permutation of the elements of the two ranges.
\<close>

theorem mergeFF_sorted_run:
  assumes "strict_weak_order compFunc"
    and "aBeg \<le> aEnd" "aEnd < length src"
    and "bBeg \<le> bEnd" "bEnd < length src"
    and "sorted_under compFunc (slice src aBeg (aEnd + 1))"
    and "sorted_under compFunc (slice src bBeg (bEnd + 1))"
    and "dBeg + ((aEnd - aBeg + 1) + (bEnd - bBeg + 1)) \<le> length dst"
  shows "\<exists>run. mergeFF dst src aBeg aEnd bBeg bEnd dBeg compFunc =
            Inr (take dBeg dst @ run @ drop (dBeg + length run) dst) \<and>
          length run = (aEnd - aBeg + 1) + (bEnd - bBeg + 1) \<and>
          sorted_under compFunc run \<and>
          mset run = mset (slice src aBeg (aEnd + 1)) + mset (slice src bBeg (bEnd + 1))"
  using assms by (rule mergeFF_run)

lemma swo_less_nat: "strict_weak_order ((<) :: nat \<Rightarrow> nat \<Rightarrow> bool)"
  by (auto simp: strict_weak_order_def equiv_under_def)

theorem mergeFF_sorted_run_witness:
  "\<exists>run. mergeFF [0, 0, 0, 0, 0, 0, 0] [1, 3, 5, 2, 4, 6 :: nat] 0 2 3 5 1 (<) =
            Inr (take 1 [0, 0, 0, 0, 0, 0, 0] @ run @ drop (1 + length run) [0, 0, 0, 0, 0, 0, 0]) \<and>
          length run = 6 \<and> sorted_under (<) run \<and>
          mset run = mset [1, 3, 5] + mset [2, 4, 6]"
  using mergeFF_sorted_run[of "(<)" 0 2 "[1, 3, 5, 2, 4, 6 :: nat]" 3 5 1 "[0, 0, 0, 0, 0, 0, 0]"]
  by (simp add: swo_less_nat sorted_under_def slice_def not_after_def)


section \<open>Ties in the sequential merge step\<close>

lemma copy_rest_keeps:
  "copy_rest src dst sBeg sEnd dBeg = Inr dst' \<Longrightarrow> i < dBeg \<Longrightarrow> dst' ! i = dst ! i"
proof (induction src dst sBeg sEnd dBeg rule: copy_rest.induct)
  case (1 src dst sBeg sEnd dBeg)
  show ?case
  proof (cases "sBeg \<le> sEnd")
    case False
    then show ?thesis using "1.prems" by (subst (asm) copy_rest.simps) simp
  next
    case True
    have nb: "\<not> (length src \<le> sBeg \<or> length dst \<le> dBeg)"
      using "1.prems"(1) True by (subst (asm) copy_rest.simps) (auto split: if_splits)
    have "copy_rest src (dst[dBeg := src ! sBeg]) (sBeg + 1) sEnd (dBeg + 1) = Inr dst'"
      using "1.prems"(1) True nb by (subst (asm) copy_rest.simps) simp
    then have "dst' ! i = (dst[dBeg := src ! sBeg]) ! i"
      using "1.IH"[OF True nb] "1.prems"(2) by simp
    then show ?thesis using "1.prems"(2) by simp
  qed
qed

lemma loopA_keeps:
  "mergeFF_loopA c src dst aBeg aEnd bBeg dBeg = Inr (dst', b', d') \<Longrightarrow>
   dBeg \<le> d' \<and> (\<forall>i<dBeg. dst' ! i = dst ! i)"
proof (induction c src dst aBeg aEnd bBeg dBeg rule: mergeFF_loopA.induct)
  case (1 c src dst aBeg aEnd bBeg dBeg)
  show ?case
  proof (cases "aBeg \<le> aEnd")
    case False
    then show ?thesis using "1.prems" by (subst (asm) mergeFF_loopA.simps) simp
  next
    case True
    have nb: "\<not> (length src \<le> aBeg \<or> length src \<le> bBeg \<or> length dst \<le> dBeg)"
      using "1.prems"(1) True by (subst (asm) mergeFF_loopA.simps) (auto split: if_splits)
    show ?thesis
    proof (cases "\<not> c (src ! bBeg) (src ! aBeg)")
      case t: True
      have "mergeFF_loopA c src (dst[dBeg := src ! aBeg]) (aBeg + 1) aEnd bBeg (dBeg + 1) = Inr (dst', b', d')"
        using "1.prems"(1) True nb t by (subst (asm) mergeFF_loopA.simps) simp
      from "1.IH"(1)[OF True nb t this] show ?thesis by auto
    next
      case f: False
      have "mergeFF_loopA c src (dst[dBeg := src ! bBeg]) aBeg aEnd (bBeg + 1) (dBeg + 1) = Inr (dst', b', d')"
        using "1.prems"(1) True nb f by (subst (asm) mergeFF_loopA.simps) simp
      from "1.IH"(2)[OF True nb f this] show ?thesis by auto
    qed
  qed
qed

lemma loopB_keeps:
  "mergeFF_loopB c src dst aBeg bBeg bEnd dBeg = Inr (dst', a', d') \<Longrightarrow>
   dBeg \<le> d' \<and> (\<forall>i<dBeg. dst' ! i = dst ! i)"
proof (induction c src dst aBeg bBeg bEnd dBeg rule: mergeFF_loopB.induct)
  case (1 c src dst aBeg bBeg bEnd dBeg)
  show ?case
  proof (cases "bBeg \<le> bEnd")
    case False
    then show ?thesis using "1.prems" by (subst (asm) mergeFF_loopB.simps) simp
  next
    case True
    have nb: "\<not> (length src \<le> aBeg \<or> length src \<le> bBeg \<or> length dst \<le> dBeg)"
      using "1.prems"(1) True by (subst (asm) mergeFF_loopB.simps) (auto split: if_splits)
    show ?thesis
    proof (cases "c (src ! aBeg) (src ! bBeg)")
      case t: True
      have "mergeFF_loopB c src (dst[dBeg := src ! aBeg]) (aBeg + 1) bBeg bEnd (dBeg + 1) = Inr (dst', a', d')"
        using "1.prems"(1) True nb t by (subst (asm) mergeFF_loopB.simps) simp
      from "1.IH"(1)[OF True nb t this] show ?thesis by auto
    next
      case f: False
      have "mergeFF_loopB c src (dst[dBeg := src ! bBeg]) aBeg (bBeg + 1) bEnd (dBeg + 1) = Inr (dst', a', d')"
        using "1.prems"(1) True nb f by (subst (asm) mergeFF_loopB.simps) simp
      from "1.IH"(2)[OF True nb f this] show ?thesis by auto
    qed
  qed
qed

lemma loopA_tie_step:
  assumes "equiv_under c (src ! aBeg) (src ! bBeg)" "aBeg \<le> aEnd"
    "aBeg < length src" "bBeg < length src" "dBeg < length dst"
  shows "mergeFF_loopA c src dst aBeg aEnd bBeg dBeg =
         mergeFF_loopA c src (dst[dBeg := src ! aBeg]) (aBeg + 1) aEnd bBeg (dBeg + 1)"
  using assms by (subst mergeFF_loopA.simps) (simp add: equiv_under_def)

lemma loopB_tie_step:
  assumes "equiv_under c (src ! aBeg) (src ! bBeg)" "bBeg \<le> bEnd"
    "aBeg < length src" "bBeg < length src" "dBeg < length dst"
  shows "mergeFF_loopB c src dst aBeg bBeg bEnd dBeg =
         mergeFF_loopB c src (dst[dBeg := src ! bBeg]) aBeg (bBeg + 1) bEnd (dBeg + 1)"
  using assms by (subst mergeFF_loopB.simps) (simp add: equiv_under_def)

lemma mergeFF_first_A:
  assumes tie: "equiv_under c (src ! aBeg) (src ! bBeg)"
    and b: "aBeg \<le> aEnd" "aEnd < length src" "bBeg \<le> bEnd" "bEnd < length src" "dBeg < length dst"
    and br: "c (src ! aEnd) (src ! bEnd)"
    and r: "mergeFF dst src aBeg aEnd bBeg bEnd dBeg c = Inr dst'"
  shows "dst' ! dBeg = src ! aBeg"
proof -
  from r br b obtain d1 b1 e1 where
    l: "mergeFF_loopA c src dst aBeg aEnd bBeg dBeg = Inr (d1, b1, e1)"
    and cp: "copy_rest src d1 b1 bEnd e1 = Inr dst'"
    unfolding mergeFF_def by (auto split: sum.splits)
  let ?d = "dst[dBeg := src ! aBeg]"
  have "mergeFF_loopA c src ?d (aBeg + 1) aEnd bBeg (dBeg + 1) = Inr (d1, b1, e1)"
    using l loopA_tie_step[OF tie b(1), where dst=dst and dBeg=dBeg] b by simp
  from loopA_keeps[OF this] have "dBeg + 1 \<le> e1" "d1 ! dBeg = ?d ! dBeg" by auto
  moreover have "dst' ! dBeg = d1 ! dBeg" using copy_rest_keeps[OF cp, of dBeg] \<open>dBeg + 1 \<le> e1\<close> by simp
  ultimately show ?thesis using b by simp
qed

lemma mergeFF_first_B:
  assumes tie: "equiv_under c (src ! aBeg) (src ! bBeg)"
    and b: "aBeg \<le> aEnd" "aEnd < length src" "bBeg \<le> bEnd" "bEnd < length src" "dBeg < length dst"
    and br: "\<not> c (src ! aEnd) (src ! bEnd)"
    and r: "mergeFF dst src aBeg aEnd bBeg bEnd dBeg c = Inr dst'"
  shows "dst' ! dBeg = src ! bBeg"
proof -
  from r br b obtain d1 a1 e1 where
    l: "mergeFF_loopB c src dst aBeg bBeg bEnd dBeg = Inr (d1, a1, e1)"
    and cp: "copy_rest src d1 a1 aEnd e1 = Inr dst'"
    unfolding mergeFF_def by (auto split: sum.splits)
  let ?d = "dst[dBeg := src ! bBeg]"
  have "mergeFF_loopB c src ?d aBeg (bBeg + 1) bEnd (dBeg + 1) = Inr (d1, a1, e1)"
    using l loopB_tie_step[OF tie b(3), where dst=dst and dBeg=dBeg] b by simp
  from loopB_keeps[OF this] have "dBeg + 1 \<le> e1" "d1 ! dBeg = ?d ! dBeg" by auto
  moreover have "dst' ! dBeg = d1 ! dBeg" using copy_rest_keeps[OF cp, of dBeg] \<open>dBeg + 1 \<le> e1\<close> by simp
  ultimately show ?thesis using b by simp
qed

text \<open>
  Claim C9. When the heads \<open>src[aBeg]\<close> and \<open>src[bBeg]\<close> tie under the comparator, the loop of
  the first branch (entered when \<open>compFunc(src[aEnd], src[bEnd])\<close> holds) copies the head of A
  and advances \<open>aBeg\<close>, the loop of the second branch copies the head of B and advances
  \<open>bBeg\<close>; so the first element that \<open>mergeFF\<close> writes is the head of A in the first branch and
  the head of B in the second, and equal keys of the two ranges come out in a different order
  in the two branches.
\<close>

theorem mergeFF_tie_order:
  assumes "equiv_under compFunc (src ! aBeg) (src ! bBeg)"
    and "aBeg \<le> aEnd" "aEnd < length src" "bBeg \<le> bEnd" "bEnd < length src" "dBeg < length dst"
  shows "mergeFF_loopA compFunc src dst aBeg aEnd bBeg dBeg =
           mergeFF_loopA compFunc src (dst[dBeg := src ! aBeg]) (aBeg + 1) aEnd bBeg (dBeg + 1) \<and>
         mergeFF_loopB compFunc src dst aBeg bBeg bEnd dBeg =
           mergeFF_loopB compFunc src (dst[dBeg := src ! bBeg]) aBeg (bBeg + 1) bEnd (dBeg + 1) \<and>
         (\<forall>dst'. mergeFF dst src aBeg aEnd bBeg bEnd dBeg compFunc = Inr dst' \<longrightarrow>
           dst' ! dBeg = (if compFunc (src ! aEnd) (src ! bEnd) then src ! aBeg else src ! bBeg))"
proof (intro conjI allI impI)
  show "mergeFF_loopA compFunc src dst aBeg aEnd bBeg dBeg =
           mergeFF_loopA compFunc src (dst[dBeg := src ! aBeg]) (aBeg + 1) aEnd bBeg (dBeg + 1)"
    using assms by (intro loopA_tie_step) simp_all
  show "mergeFF_loopB compFunc src dst aBeg bBeg bEnd dBeg =
           mergeFF_loopB compFunc src (dst[dBeg := src ! bBeg]) aBeg (bBeg + 1) bEnd (dBeg + 1)"
    using assms by (intro loopB_tie_step) simp_all
next
  fix dst' assume r: "mergeFF dst src aBeg aEnd bBeg bEnd dBeg compFunc = Inr dst'"
  show "dst' ! dBeg = (if compFunc (src ! aEnd) (src ! bEnd) then src ! aBeg else src ! bBeg)"
  proof (cases "compFunc (src ! aEnd) (src ! bEnd)")
    case True
    then show ?thesis using mergeFF_first_A[OF assms True r] by simp
  next
    case False
    then show ?thesis using mergeFF_first_B[OF assms False r] by simp
  qed
qed

theorem mergeFF_tie_order_witness:
  "equiv_under by_key ([(1, 0), (1, 1), (2, 1)] ! 0) ([(1, 0), (1, 1), (2, 1)] ! 1) \<and>
   mergeFF_loopA by_key [(1, 0), (1, 1), (2, 1)] [(0, 0), (0, 0), (0, 0)] 0 0 1 0 =
     mergeFF_loopA by_key [(1, 0), (1, 1), (2, 1)]
       ([(0, 0), (0, 0), (0, 0)][0 := [(1, 0), (1, 1), (2, 1)] ! 0]) (0 + 1) 0 1 (0 + 1) \<and>
   mergeFF [(0, 0), (0, 0), (0, 0)] [(1, 0), (1, 1), (2, 1)] 0 0 1 2 0 by_key
     = Inr [(1, 0), (1, 1), (2, 1)] \<and>
   equiv_under by_key ([(1, 0), (2, 0), (1, 1)] ! 0) ([(1, 0), (2, 0), (1, 1)] ! 2) \<and>
   mergeFF_loopB by_key [(1, 0), (2, 0), (1, 1)] [(0, 0), (0, 0), (0, 0)] 0 2 2 0 =
     mergeFF_loopB by_key [(1, 0), (2, 0), (1, 1)]
       ([(0, 0), (0, 0), (0, 0)][0 := [(1, 0), (2, 0), (1, 1)] ! 2]) 0 (2 + 1) 2 (0 + 1) \<and>
   mergeFF [(0, 0), (0, 0), (0, 0)] [(1, 0), (2, 0), (1, 1)] 0 1 2 2 0 by_key
     = Inr [(1, 1), (1, 0), (2, 0)]"
proof -
  have e1: "mergeFF [(0, 0), (0, 0), (0, 0)] [(1, 0), (1, 1), (2, 1)] 0 0 1 2 0 by_key
     = Inr [(1, 0), (1, 1), (2, 1)]" by code_simp
  have e2: "mergeFF [(0, 0), (0, 0), (0, 0)] [(1, 0), (2, 0), (1, 1)] 0 1 2 2 0 by_key
     = Inr [(1, 1), (1, 0), (2, 0)]" by code_simp
  have t1: "equiv_under by_key ([(1, 0), (1, 1), (2, 1)] ! 0) ([(1, 0), (1, 1), (2, 1)] ! 1)"
    by (simp add: equiv_under_def by_key_def)
  have t2: "equiv_under by_key ([(1, 0), (2, 0), (1, 1)] ! 0) ([(1, 0), (2, 0), (1, 1)] ! 2)"
    by (simp add: equiv_under_def by_key_def)
  have f1: "mergeFF_loopA by_key [(1, 0), (1, 1), (2, 1)] [(0, 0), (0, 0), (0, 0)] 0 0 1 0 =
     mergeFF_loopA by_key [(1, 0), (1, 1), (2, 1)]
       ([(0, 0), (0, 0), (0, 0)][0 := [(1, 0), (1, 1), (2, 1)] ! 0]) (0 + 1) 0 1 (0 + 1)"
    by (rule mergeFF_tie_order[OF t1, of 0 2 0 "[(0, 0), (0, 0), (0, 0)]", THEN conjunct1]) simp_all
  have f2: "mergeFF_loopB by_key [(1, 0), (2, 0), (1, 1)] [(0, 0), (0, 0), (0, 0)] 0 2 2 0 =
     mergeFF_loopB by_key [(1, 0), (2, 0), (1, 1)]
       ([(0, 0), (0, 0), (0, 0)][0 := [(1, 0), (2, 0), (1, 1)] ! 2]) 0 (2 + 1) 2 (0 + 1)"
    by (rule mergeFF_tie_order[OF t2, of 1 2 0 "[(0, 0), (0, 0), (0, 0)]", THEN conjunct2, THEN conjunct1])
      simp_all
  show ?thesis
    by (intro conjI) (rule t1 f1 e1 t2 f2 e2)+
qed

section \<open>Rounding to binary64\<close>

subsection \<open>Rounding to the nearest integer\<close>


lemma rne_of_int [simp]: "rne (of_int k) = k"
  by (simp add: rne_def)

lemma rne_range: "\<lfloor>y\<rfloor> \<le> rne y \<and> rne y \<le> \<lfloor>y\<rfloor> + 1"
  by (simp add: rne_def Let_def)

lemma rne_mono: assumes "y \<le> z" shows "rne y \<le> rne z"
proof (cases "\<lfloor>y\<rfloor> = \<lfloor>z\<rfloor>")
  case True
  then have "y - of_int \<lfloor>y\<rfloor> \<le> z - of_int \<lfloor>z\<rfloor>" using assms by simp
  then show ?thesis unfolding rne_def Let_def True by auto
next
  case False
  then have "\<lfloor>y\<rfloor> + 1 \<le> \<lfloor>z\<rfloor>" using floor_mono[OF assms] by linarith
  then show ?thesis using rne_range[of y] rne_range[of z] by linarith
qed

lemma rne_ge: "of_int k \<le> y \<Longrightarrow> k \<le> rne y"
  using rne_mono[of "of_int k" y] by simp

lemma rne_le: "y \<le> of_int k \<Longrightarrow> rne y \<le> k"
  using rne_mono[of y "of_int k"] by simp

subsection \<open>The binary exponent\<close>

lemma pow2_Suc: "(2::rat) powi (k + 1) = 2 * 2 powi k"
  by (simp add: power_int_add)

lemma pow2_add: "(2::rat) powi a * 2 powi b = 2 powi (a + b)"
  by (simp add: power_int_add)

lemma bexp_up_bounds:
  "1 \<le> x \<Longrightarrow> 0 \<le> bexp_up x \<and> 2 powi (bexp_up x) \<le> x \<and> x < 2 powi (bexp_up x + 1)"
proof (induction x rule: bexp_up.induct)
  case (1 x)
  show ?case
  proof (cases "x < 2")
    case True
    then show ?thesis using 1(2) by (simp add: bexp_up.simps[of x])
  next
    case False
    then have "1 \<le> x / 2" by simp
    from 1(1)[OF False this] have ih: "0 \<le> bexp_up (x / 2)" "2 powi (bexp_up (x / 2)) \<le> x / 2"
      "x / 2 < 2 powi (bexp_up (x / 2) + 1)" by simp_all
    have e: "bexp_up x = bexp_up (x / 2) + 1" using False by (simp add: bexp_up.simps[of x])
    have "(2::rat) powi (bexp_up (x / 2) + 1 + 1) = 2 * 2 powi (bexp_up (x / 2) + 1)"
      by (rule pow2_Suc)
    moreover have "(2::rat) powi (bexp_up (x / 2) + 1) = 2 * 2 powi (bexp_up (x / 2))"
      by (rule pow2_Suc)
    ultimately show ?thesis unfolding e using ih by (intro conjI; linarith)
  qed
qed

lemma bexp_down_bounds:
  "0 < x \<Longrightarrow> x < 1 \<Longrightarrow> 2 powi (bexp_down x) \<le> x \<and> x < 2 powi (bexp_down x + 1)"
proof (induction x rule: bexp_down.induct)
  case (1 x)
  have e: "bexp_down x = bexp_down (2 * x) - 1" using 1(2,3) by (simp add: bexp_down.simps[of x])
  have p1: "(2::rat) powi (bexp_down (2 * x) - 1 + 1) = 2 * 2 powi (bexp_down (2 * x) - 1)"
    by (rule pow2_Suc)
  have p2: "(2::rat) powi (bexp_down (2 * x) + 1) = 2 * 2 powi (bexp_down (2 * x))"
    by (rule pow2_Suc)
  have p3: "bexp_down (2 * x) - 1 + 1 = bexp_down (2 * x)" by simp
  show ?case
  proof (cases "2 * x < 1")
    case True
    have "\<not> (x \<le> 0 \<or> 1 \<le> x)" using 1(2,3) by simp
    from 1(1)[OF this _ True] 1(2)
    have ih: "2 powi (bexp_down (2 * x)) \<le> 2 * x" "2 * x < 2 powi (bexp_down (2 * x) + 1)" by simp_all
    show ?thesis unfolding e p3 using ih p1 p2 unfolding p3 by (intro conjI; linarith)
  next
    case False
    then have z: "bexp_down (2 * x) = 0" by (simp add: bexp_down.simps[of "2 * x"])
    show ?thesis unfolding e z using False 1(3) by simp
  qed
qed

lemma bexp_bounds: "0 < x \<Longrightarrow> 2 powi (bexp x) \<le> x \<and> x < 2 powi (bexp x + 1)"
  using bexp_up_bounds[of x] bexp_down_bounds[of x] by (cases "1 \<le> x") (simp_all add: bexp_def)

lemma pow2_less_exp: "(2::rat) powi a < 2 powi b \<Longrightarrow> a < b"
proof (rule ccontr)
  assume h: "(2::rat) powi a < 2 powi b" "\<not> a < b"
  then have "(2::rat) powi b \<le> 2 powi a" by (intro power_int_increasing) simp_all
  with h show False by simp
qed

lemma bexp_unique:
  assumes "2 powi e \<le> x" "x < 2 powi (e + 1)"
  shows "bexp x = e"
proof -
  have "0 < (2::rat) powi e" by simp
  then have "0 < x" using assms(1) by linarith
  from bexp_bounds[OF this] have b: "2 powi (bexp x) \<le> x" "x < 2 powi (bexp x + 1)" by simp_all
  have "(2::rat) powi e < 2 powi (bexp x + 1)" using assms(1) b(2) by linarith
  then have "e < bexp x + 1" by (rule pow2_less_exp)
  moreover have "(2::rat) powi (bexp x) < 2 powi (e + 1)" using assms(2) b(1) by linarith
  then have "bexp x < e + 1" by (rule pow2_less_exp)
  ultimately show ?thesis by simp
qed

subsection \<open>Error, monotonicity and exact cases of \<open>fl\<close>\<close>

lemma fl_0 [simp]: "fl 0 = 0" by (simp add: fl_def)

lemma fl_char:
  assumes "2 powi e \<le> x" "x < 2 powi (e + 1)"
  shows "fl x = of_int (rne (x * 2 powi (52 - e))) * 2 powi (e - 52)"
proof -
  have "0 < (2::rat) powi e" by simp
  then have "0 < x" using assms(1) by linarith
  then show ?thesis by (simp add: fl_def fl_pos_def bexp_unique[OF assms])
qed

lemma fl_neg: "fl (- x) = - fl x"
  by (simp add: fl_def)

lemma scaled_range:
  fixes x :: rat
  assumes "2 powi e \<le> x" "x < 2 powi (e + 1)"
  shows "2 ^ 52 \<le> x * 2 powi (52 - e)" "x * 2 powi (52 - e) < 2 ^ 53"
proof -
  have a: "(2::rat) powi e * 2 powi (52 - e) = 2 ^ 52"
    unfolding pow2_add by simp
  have b: "(2::rat) powi (e + 1) * 2 powi (52 - e) = 2 ^ 53"
    unfolding pow2_add by simp
  have p: "0 < (2::rat) powi (52 - e)" by simp
  show "2 ^ 52 \<le> x * 2 powi (52 - e)"
    using mult_right_mono[OF assms(1), of "2 powi (52 - e)"] p unfolding a by simp
  show "x * 2 powi (52 - e) < 2 ^ 53"
    using mult_strict_right_mono[OF assms(2) p] unfolding b by simp
qed

lemma fl_bounds:
  fixes x :: rat
  assumes "2 powi e \<le> x" "x < 2 powi (e + 1)"
  shows "2 powi e \<le> fl x" "fl x \<le> 2 powi (e + 1)"
proof -
  note s = scaled_range[OF assms]
  have "(of_int (2 ^ 52) :: rat) \<le> x * 2 powi (52 - e)" using s(1) by simp
  then have l: "2 ^ 52 \<le> rne (x * 2 powi (52 - e))" by (rule rne_ge)
  have "x * 2 powi (52 - e) \<le> (of_int (2 ^ 53) :: rat)" using s(2) by simp
  then have u: "rne (x * 2 powi (52 - e)) \<le> 2 ^ 53" by (rule rne_le)
  have "(2::rat) powi 52 * 2 powi (e - 52) = 2 powi e"
    unfolding pow2_add by simp
  then have a: "(2 ^ 52 :: rat) * 2 powi (e - 52) = 2 powi e" by simp
  have "52 + 1 + (e - 52) = e + 1" by simp
  then have "(2::rat) powi (52 + 1) * 2 powi (e - 52) = 2 powi (e + 1)"
    unfolding pow2_add by (simp only:)
  then have b: "(2 ^ 53 :: rat) * 2 powi (e - 52) = 2 powi (e + 1)" by simp
  have p: "0 \<le> (2::rat) powi (e - 52)" by simp
  have "(of_int (2 ^ 52) :: rat) \<le> of_int (rne (x * 2 powi (52 - e)))"
    using l by (simp only: of_int_le_iff)
  then have "(2 ^ 52 :: rat) \<le> of_int (rne (x * 2 powi (52 - e)))" by simp
  from mult_right_mono[OF this p] show "2 powi e \<le> fl x"
    unfolding fl_char[OF assms] a .
  have "(of_int (rne (x * 2 powi (52 - e))) :: rat) \<le> of_int (2 ^ 53)"
    using u by (simp only: of_int_le_iff)
  then have "of_int (rne (x * 2 powi (52 - e))) \<le> (2 ^ 53 :: rat)" by simp
  from mult_right_mono[OF this p] show "fl x \<le> 2 powi (e + 1)"
    unfolding fl_char[OF assms] b .
qed




lemma fl_pos_pos: "0 < x \<Longrightarrow> 0 < fl x"
proof -
  assume x: "0 < x"
  from bexp_bounds[OF x] have b: "2 powi (bexp x) \<le> x" "x < 2 powi (bexp x + 1)" by simp_all
  have "0 < (2::rat) powi (bexp x)" by simp
  then show ?thesis using fl_bounds(1)[OF b] by linarith
qed

lemma fl_nonneg: "0 \<le> x \<Longrightarrow> 0 \<le> fl x"
  using fl_pos_pos[of x] by (cases "x = 0") (simp_all add: less_eq_rat_def)

lemma fl_mono_pos:
  assumes "0 < x" "x \<le> y"
  shows "fl x \<le> fl y"
proof -
  have y: "0 < y" using assms by simp
  from bexp_bounds[OF assms(1)] have bx: "2 powi (bexp x) \<le> x" "x < 2 powi (bexp x + 1)" by simp_all
  from bexp_bounds[OF y] have by': "2 powi (bexp y) \<le> y" "y < 2 powi (bexp y + 1)" by simp_all
  have "(2::rat) powi (bexp x) < 2 powi (bexp y + 1)" using bx(1) by'(2) assms(2) by linarith
  then have le: "bexp x \<le> bexp y" using pow2_less_exp by fastforce
  show ?thesis
  proof (cases "bexp x = bexp y")
    case True
    have "x * 2 powi (52 - bexp y) \<le> y * 2 powi (52 - bexp y)"
      by (intro mult_right_mono assms) simp
    then have "rne (x * 2 powi (52 - bexp y)) \<le> rne (y * 2 powi (52 - bexp y))" by (rule rne_mono)
    then have "(of_int (rne (x * 2 powi (52 - bexp y))) :: rat) \<le> of_int (rne (y * 2 powi (52 - bexp y)))"
      by simp
    then show ?thesis
      unfolding fl_char[OF bx] fl_char[OF by'] True by (intro mult_right_mono) simp_all
  next
    case False
    then have "bexp x + 1 \<le> bexp y" using le by simp
    then have "(2::rat) powi (bexp x + 1) \<le> 2 powi (bexp y)" by (intro power_int_increasing) simp_all
    then show ?thesis using fl_bounds(2)[OF bx] fl_bounds(1)[OF by'] by linarith
  qed
qed

lemma fl_mono: "0 \<le> x \<Longrightarrow> x \<le> y \<Longrightarrow> fl x \<le> fl y"
  using fl_mono_pos[of x y] fl_nonneg[of y] by (cases "x = 0") simp_all


lemma fl_dyadic_pos:
  assumes "0 < m" "m \<le> 2 ^ 53"
  shows "fl (of_int m * 2 powi k) = of_int m * 2 powi k"
proof -
  define e where "e = bexp (of_int m)"
  have m0: "0 < (of_int m :: rat)" using assms by simp
  from bexp_bounds[OF m0] have b: "2 powi e \<le> (of_int m :: rat)" "(of_int m :: rat) < 2 powi (e + 1)"
    by (simp_all add: e_def)
  have "(of_int m :: rat) \<le> of_int (2 ^ 53)" using assms(2) by (simp only: of_int_le_iff)
  then have "(2::rat) powi e \<le> 2 powi 53" using b(1) by simp
  then have e53: "e \<le> 53" using power_int_le_imp_le_exp[of "2::rat" e 53] by simp
  have "(1::rat) \<le> of_int m" using assms by simp
  then have "(2::rat) powi 0 < 2 powi (e + 1)" using b(2) by simp
  then have e0: "0 \<le> e" using pow2_less_exp[of 0 "e + 1"] by simp
  define x where "x = (of_int m :: rat) * 2 powi k"
  have p: "0 < (2::rat) powi k" by simp
  have bx: "2 powi (e + k) \<le> x" "x < 2 powi (e + k + 1)"
    using mult_right_mono[OF b(1), of "2 powi k"] mult_strict_right_mono[OF b(2) p]
    by (simp_all add: x_def power_int_add)
  have s: "x * 2 powi (52 - (e + k)) = of_int m * 2 powi (52 - e)"
    unfolding x_def mult.assoc by (simp flip: power_int_add)
  have int: "\<exists>j. (of_int m :: rat) * 2 powi (52 - e) = of_int j"
  proof (cases "e \<le> 52")
    case True
    then have "(2::rat) powi (52 - e) = of_int (2 ^ nat (52 - e))" by (simp add: power_int_def)
    then have "(of_int m :: rat) * 2 powi (52 - e) = of_int (m * 2 ^ nat (52 - e))" by simp
    then show ?thesis by blast
  next
    case False
    then have e: "e = 53" using e53 by simp
    then have "(2 ^ 53 :: rat) \<le> of_int m" using b(1) by simp
    then have "(of_int (2 ^ 53) :: rat) \<le> of_int m" by simp
    then have "2 ^ 53 \<le> m" by (simp only: of_int_le_iff)
    then have "m = 2 ^ 53" using assms(2) by simp
    then have "(of_int m :: rat) * 2 powi (52 - e) = of_int (2 ^ 52)" by (simp add: e)
    then show ?thesis by blast
  qed
  then obtain j where j: "(of_int m :: rat) * 2 powi (52 - e) = of_int j" by blast
  have "fl x = of_int j * 2 powi (e + k - 52)"
    unfolding fl_char[OF bx] s j by simp
  also have "\<dots> = of_int m * 2 powi (52 - e) * 2 powi (e + k - 52)" by (simp only: j)
  also have "\<dots> = of_int m * 2 powi k"
    unfolding mult.assoc by (simp flip: power_int_add)
  finally show ?thesis by (simp add: x_def)
qed

lemma fl_dyadic:
  assumes "\<bar>m\<bar> \<le> 2 ^ 53"
  shows "fl (of_int m * 2 powi k) = of_int m * 2 powi k"
proof -
  consider "m = 0" | "0 < m" | "m < 0" by linarith
  then show ?thesis
  proof cases
    case 1 then show ?thesis by simp
  next
    case 2 then show ?thesis using assms by (intro fl_dyadic_pos) simp_all
  next
    case 3
    then have "fl (of_int (- m) * 2 powi k) = of_int (- m) * 2 powi k"
      using assms by (intro fl_dyadic_pos) simp_all
    then show ?thesis using fl_neg[of "of_int m * 2 powi k"] by simp
  qed
qed

lemma fl_of_int: "\<bar>m\<bar> \<le> 2 ^ 53 \<Longrightarrow> fl (of_int m) = of_int m"
  using fl_dyadic[of m 0] by simp

lemma fl_of_nat: "n \<le> 2 ^ 53 \<Longrightarrow> fl (of_nat n) = of_nat n"
  using fl_of_int[of "int n"] by simp

lemma fl_idem: "fl (fl x) = fl x"
proof -
  have pos: "fl (fl x) = fl x" if x: "0 < x" for x
  proof -
    from bexp_bounds[OF x] have b: "2 powi (bexp x) \<le> x" "x < 2 powi (bexp x + 1)" by simp_all
    note s = scaled_range[OF b]
    have "(of_int (2 ^ 52) :: rat) \<le> x * 2 powi (52 - bexp x)" using s(1) by simp
    then have l: "2 ^ 52 \<le> rne (x * 2 powi (52 - bexp x))" by (rule rne_ge)
    have "x * 2 powi (52 - bexp x) \<le> (of_int (2 ^ 53) :: rat)" using s(2) by simp
    then have u: "rne (x * 2 powi (52 - bexp x)) \<le> 2 ^ 53" by (rule rne_le)
    show ?thesis unfolding fl_char[OF b] using l u by (intro fl_dyadic_pos) simp_all
  qed
  consider "x = 0" | "0 < x" | "x < 0" by linarith
  then show ?thesis
  proof cases
    case 1 then show ?thesis by simp
  next
    case 2 then show ?thesis by (rule pos)
  next
    case 3
    then have "fl (fl (- x)) = fl (- x)" by (intro pos) simp
    then show ?thesis by (simp add: fl_neg)
  qed
qed

section \<open>Rounding and integer conversions\<close>

lemma llround_of_nat [simp]: "llround (of_nat n) = int n"
proof -
  have "\<lfloor>(of_int (int n) :: rat) + 1 / 2\<rfloor> = int n" by linarith
  then show ?thesis by (simp add: llround_def)
qed

lemma llround_0 [simp]: "llround 0 = 0"
  using llround_of_nat[of 0] by simp


lemma to_int64_id: "n < 2 ^ 63 \<Longrightarrow> to_int64 n = int n"
  by (simp add: to_int64_def)

lemma to_size_t_1 [simp]: "to_size_t 1 = 1"
  by (simp add: to_size_t_def)


lemma llround_numeral [simp]: "llround (numeral k) = numeral k"
  using llround_of_nat[of "numeral k"] by simp

lemma llround_1 [simp]: "llround 1 = 1"
  using llround_of_nat[of 1] by simp

lemma llround_frac:
  assumes "0 \<le> p" "0 < q"
  shows "llround (of_int p / of_int q) = (2 * p + q) div (2 * q)"
proof -
  have "(of_int p :: rat) / of_int q + 1 / 2 = of_int (2 * p + q) / of_int (2 * q)"
    using assms by (simp add: field_simps)
  then have "\<lfloor>(of_int p :: rat) / of_int q + 1 / 2\<rfloor> = (2 * p + q) div (2 * q)"
    by (simp only: floor_divide_of_int_eq)
  moreover have "0 \<le> (of_int p :: rat) / of_int q" using assms by simp
  ultimately show ?thesis by (simp add: llround_def)
qed

lemma floor_numeral_quotient:
  "\<lfloor>(numeral a :: rat) / numeral b\<rfloor> = numeral a div numeral b"
  using floor_divide_of_int_eq[of "numeral a" "numeral b", where ?'a = rat] by simp

lemma llround_mono: "0 \<le> x \<Longrightarrow> x \<le> y \<Longrightarrow> llround x \<le> llround y"
  by (simp add: llround_def floor_mono)

lemma llround_nonneg: "0 \<le> x \<Longrightarrow> 0 \<le> llround x"
  by (simp add: llround_def)

lemma llround64_eq: "- (2 ^ 63) \<le> llround x \<Longrightarrow> llround x < 2 ^ 63 \<Longrightarrow> llround64 x = llround x"
  by (simp add: llround64_def)

lemma llround64_of_nat: "n < 2 ^ 63 \<Longrightarrow> llround64 (of_nat n) = int n"
proof -
  assume "n < 2 ^ 63"
  then have "int n < 2 ^ 63" by (metis of_nat_less_iff of_nat_numeral of_nat_power)
  then show ?thesis by (simp add: llround64_def)
qed

lemma llround64_of_int: "0 \<le> i \<Longrightarrow> i < 2 ^ 63 \<Longrightarrow> llround64 (of_int i) = i"
proof -
  assume i: "0 \<le> i" "i < 2 ^ 63"
  have "llround (of_int i) = i" using llround_of_nat[of "nat i"] i(1) by simp
  then show ?thesis using i by (simp add: llround64_def)
qed

lemma llround64_numeral [simp]: "numeral k < (2 ^ 63 :: int) \<Longrightarrow> llround64 (numeral k) = numeral k"
  using llround64_of_int[of "numeral k"] by simp

lemma llround64_0 [simp]: "llround64 0 = 0"
  by (simp add: llround64_def)

lemma llround64_1 [simp]: "llround64 1 = 1"
  by (simp add: llround64_def)

lemma fl_numeral [simp]: "numeral k \<le> (2 ^ 53 :: int) \<Longrightarrow> fl (numeral k) = numeral k"
  using fl_of_int[of "numeral k"] by simp

lemma fl_1 [simp]: "fl 1 = 1"
  using fl_of_int[of 1] by simp

lemma to_double_of_int: "\<bar>i\<bar> \<le> 2 ^ 53 \<Longrightarrow> to_double i = of_int i"
  by (simp add: to_double_def fl_of_int)

lemma to_double_of_nat: "n \<le> 2 ^ 53 \<Longrightarrow> to_double (int n) = of_nat n"
  by (simp add: to_double_def fl_of_nat)

lemma to_double_numeral [simp]: "numeral k \<le> (2 ^ 53 :: int) \<Longrightarrow> to_double (numeral k) = numeral k"
  by (simp add: to_double_def)

lemma to_double_0 [simp]: "to_double 0 = 0"
  by (simp add: to_double_def)

lemma to_double_1 [simp]: "to_double 1 = 1"
  by (simp add: to_double_def)

lemma to_double_pos: "0 < i \<Longrightarrow> 0 < to_double i"
  by (simp add: to_double_def fl_pos_pos)

lemma to_double_nonneg: "0 \<le> i \<Longrightarrow> 0 \<le> to_double i"
  by (simp add: to_double_def fl_nonneg)

lemma rne_frac:
  assumes "0 < q"
  shows "rne (of_int p / of_int q) =
     (if 2 * (p mod q) < q then p div q
      else if q < 2 * (p mod q) then p div q + 1
      else if even (p div q) then p div q else p div q + 1)"
proof -
  have f: "\<lfloor>(of_int p :: rat) / of_int q\<rfloor> = p div q" by (rule floor_divide_of_int_eq)
  have "(of_int p :: rat) = of_int (p div q * q + p mod q)" by simp
  also have "\<dots> = of_int (p div q) * of_int q + of_int (p mod q)" by (simp only: of_int_add of_int_mult)
  finally have d: "(of_int p :: rat) / of_int q - of_int (p div q) = of_int (p mod q) / of_int q"
    using assms by (simp add: field_simps)
  have a: "(of_int (p mod q) / of_int q < (1 / 2 :: rat)) = (2 * (p mod q) < q)"
  proof -
    have "(of_int (p mod q) / of_int q < (1 / 2 :: rat)) = ((of_int (2 * (p mod q)) :: rat) < of_int q)"
      using assms by (simp add: field_simps)
    then show ?thesis by (simp only: of_int_less_iff)
  qed
  have b: "((1 / 2 :: rat) < of_int (p mod q) / of_int q) = (q < 2 * (p mod q))"
  proof -
    have "((1 / 2 :: rat) < of_int (p mod q) / of_int q) = ((of_int q :: rat) < of_int (2 * (p mod q)))"
      using assms by (simp add: field_simps)
    then show ?thesis by (simp only: of_int_less_iff)
  qed
  show ?thesis unfolding rne_def Let_def f d a b ..
qed

lemma rne_numeral_quotient:
  "rne (numeral a / numeral b) =
     (if 2 * (numeral a mod numeral b) < (numeral b :: int) then numeral a div numeral b
      else if (numeral b :: int) < 2 * (numeral a mod numeral b) then numeral a div numeral b + 1
      else if even (numeral a div numeral b :: int) then numeral a div numeral b
      else numeral a div numeral b + 1)"
  using rne_frac[of "numeral b" "numeral a"] by simp

section \<open>The segments of the scheduler\<close>

lemma upto_join: "a \<le> b \<Longrightarrow> b \<le> c \<Longrightarrow> [a .. b - 1] @ [b .. c - 1] = [a .. c - 1]"
proof (cases "a = b")
  case True
  then show ?thesis by simp
next
  case False
  assume "a \<le> b" "b \<le> c"
  then have "a \<le> b - 1" "b - 1 \<le> c - 1" using False by simp_all
  from upto_split2[OF this] show ?thesis by simp
qed

lemma map_add_upto: "map (\<lambda>i. b + i) [l .. u] = [b + l .. b + u]"
proof (induction l u rule: upto.induct)
  case (1 i j)
  show ?case
  proof (cases "i \<le> j")
    case True
    then show ?thesis using 1 by (simp add: upto_rec1[of i j] upto_rec1[of "b + i" "b + j"] add.assoc)
  next
    case False
    then show ?thesis by simp
  qed
qed

lemma NoWait_segments_eq: "parallelForNoWait_segments b e k = parallelFor_segments b e k"
  by (simp add: parallelForNoWait_segments_def parallelFor_segments_def)

lemma NoWait_calls_eq: "parallelForNoWait_calls b e k = parallelFor_calls b e k"
  by (simp add: parallelForNoWait_calls_def parallelFor_calls_def NoWait_segments_eq)

lemma segment_calls_boundary:
  "segment_calls b (l, u) = [b + l .. b + u - 1]"
  by (simp add: segment_calls_def map_add_upto add_diff_eq)

text \<open>
  As many segments as indices, which is how \<open>parallelMerge\<close> and \<open>parallelSort\<close> call the
  scheduler: \<open>seg_size\<close> is \<open>1.0\<close>, the sums are exact, and segment \<open>i\<close> is \<open>[i, i + 1)\<close>.
\<close>

lemma launch_unit:
  "j + m + 1 \<le> 2 ^ 53 \<Longrightarrow>
   launch_loop 1 m (int j) (of_nat (j + 1)) =
     (map (\<lambda>i. (int i, int (i + 1))) [j ..< j + m], int (j + m), of_nat (j + m + 1))"
proof (induction m arbitrary: j)
  case 0
  show ?case by simp
next
  case (Suc m)
  have b: "j + 1 + m + 1 \<le> 2 ^ 53" using Suc.prems by simp
  have "j + 1 < 2 ^ 53" using Suc.prems by simp
  then have "j + 1 < (2 :: nat) ^ 63" by (rule less_le_trans) simp
  then have r: "llround64 (of_nat (j + 1)) = int (j + 1)" by (rule llround64_of_nat)
  have "j + 1 + 1 \<le> 2 ^ 53" using Suc.prems by simp
  then have "fl (of_nat (j + 1 + 1)) = of_nat (j + 1 + 1)" by (rule fl_of_nat)
  then have s: "fl (of_nat (j + 1) + 1) = of_nat (j + 1 + 1)" by simp
  have u: "[j ..< j + Suc m] = j # [j + 1 ..< j + 1 + m]" by (simp add: upt_conv_Cons)
  show ?case
    unfolding launch_loop.simps r s Suc.IH[OF b] u by simp
qed

lemma parallelFor_segments_unit:
  assumes "0 < P" "P \<le> 2 ^ 53"
  shows "parallelFor_segments 0 (int P) P = Inr (map (\<lambda>i. (int i, int (i + 1))) [0 ..< P])"
proof -
  have "int P < 2 ^ 64"
  proof -
    have "P < 2 ^ 64" using assms(2) by (rule le_less_trans) simp
    then show ?thesis by (metis of_nat_less_iff of_nat_numeral of_nat_power)
  qed
  then have n: "to_size_t (int P - 0) = P" by (simp add: to_size_t_def)
  have d: "to_double (int P) = of_nat P" using assms(2) by (rule to_double_of_nat)
  have q: "fl (to_double (int P) / to_double (int P)) = 1" using assms(1) by (simp add: d)
  have u: "usub P 1 = P - 1" using assms(1) by (simp add: usub_def)
  have "launch_loop 1 (P - 1) (int 0) (of_nat (0 + 1)) =
      (map (\<lambda>i. (int i, int (i + 1))) [0 ..< 0 + (P - 1)], int (0 + (P - 1)), of_nat (0 + (P - 1) + 1))"
    using assms by (intro launch_unit) simp
  then have l: "launch_loop 1 (P - 1) 0 1 =
      (map (\<lambda>i. (int i, int (i + 1))) [0 ..< P - 1], int (P - 1), of_nat P)"
    using assms(1) by simp
  have "P < 2 ^ 63" using assms(2) by (rule le_less_trans) simp
  then have r: "llround64 (of_nat P) = int P" by (rule llround64_of_nat)
  have e: "[0 ..< P] = [0 ..< P - 1] @ [P - 1]" using assms(1)
    by (metis Suc_diff_1 upt_Suc_append zero_le)
  have P0: "P \<noteq> 0" using assms(1) by simp
  have "parallelFor_segments 0 (int P) P =
      Inr (map (\<lambda>i. (int i, int (i + 1))) [0 ..< P - 1] @ [(int (P - 1), int P)])"
    unfolding parallelFor_segments_def n Let_def
    by (simp only: P0 if_False less_irrefl q u l prod.case r)
  also have "map (\<lambda>i. (int i, int (i + 1))) [0 ..< P - 1] @ [(int (P - 1), int P)]
      = map (\<lambda>i. (int i, int (i + 1))) [0 ..< P]"
  proof -
    have "map (\<lambda>i. (int i, int (i + 1))) [0 ..< P]
        = map (\<lambda>i. (int i, int (i + 1))) ([0 ..< P - 1] @ [P - 1])"
      by (rule arg_cong[OF e])
    then show ?thesis using assms(1) by simp
  qed
  finally show ?thesis .
qed


subsection \<open>Ranges that the segments miss or overrun\<close>

lemma fl_odd_53: "fl 9007199254740993 = 9007199254740992"
proof -
  have "fl 9007199254740993 = of_int (rne (9007199254740993 * 2 powi (52 - 53))) * 2 powi (53 - 52)"
    by (rule fl_char) simp_all
  also have "\<dots> = 9007199254740992"
    by (simp add: rne_numeral_quotient power_int_minus_divide)
  finally show ?thesis .
qed

lemma fl_third: "fl (8404746803084617 / 3) = 5603164535389745 / 2"
proof -
  have "fl (8404746803084617 / 3)
      = of_int (rne (8404746803084617 / 3 * 2 powi (52 - 51))) * 2 powi (51 - 52)"
    by (rule fl_char) simp_all
  also have "\<dots> = 5603164535389745 / 2"
    by (simp add: rne_numeral_quotient power_int_minus_divide)
  finally show ?thesis .
qed

lemma fl_three_thirds: "fl (16809493606169235 / 2) = 8404746803084618"
proof -
  have "fl (16809493606169235 / 2)
      = of_int (rne (16809493606169235 / 2 * 2 powi (52 - 52))) * 2 powi (52 - 52)"
    by (rule fl_char) simp_all
  also have "\<dots> = 8404746803084618"
    by (simp add: rne_numeral_quotient)
  finally show ?thesis .
qed

lemma llround64_half: "llround64 (5603164535389745 / 2) = 2801582267694873"
  by (simp add: llround64_def llround_def floor_numeral_quotient)

text \<open>
  Claim C5 says that \<open>fn\<close> is called exactly once for every index of \<open>[begin, end)\<close>. The
  segment bounds are sums of binary64 numbers. For the range \<open>[0, 2 ^ 53 + 1)\<close> and one
  segment, \<open>(double)n\<close> is \<open>2 ^ 53\<close> and the only segment is \<open>[0, 2 ^ 53)\<close>: the last index is
  never called. For the range \<open>[0, 8404746803084617)\<close> and three segments the last segment
  ends at \<open>8404746803084618\<close>: \<open>fn\<close> is called with \<open>end\<close> itself, one past the range.
\<close>

theorem parallelFor_misses_indices:
  "parallelFor_segments 0 9007199254740993 1 = Inr [(0, 9007199254740992)] \<and>
   parallelFor_calls 0 9007199254740993 1 = Inr [0 .. 9007199254740991] \<and>
   parallelFor_segments 0 8404746803084617 3 =
     Inr [(0, 2801582267694873), (2801582267694873, 5603164535389745),
          (5603164535389745, 8404746803084618)] \<and>
   parallelFor_calls 0 8404746803084617 3 = Inr [0 .. 8404746803084617]"
proof -
  have s1: "parallelFor_segments 0 9007199254740993 1 = Inr [(0, 9007199254740992)]"
    by (simp add: parallelFor_segments_def to_size_t_def usub_def to_double_def fl_odd_53)
  have s3: "parallelFor_segments 0 8404746803084617 3 =
     Inr [(0, 2801582267694873), (2801582267694873, 5603164535389745),
          (5603164535389745, 8404746803084618)]"
    by (simp add: parallelFor_segments_def to_size_t_def usub_def numeral_3_eq_3 fl_third
        llround64_half fl_three_thirds)
  have c1: "parallelFor_calls 0 9007199254740993 1 = Inr [0 .. 9007199254740991]"
    by (simp add: parallelFor_calls_def s1 segment_calls_boundary del: One_nat_def upto_rec_numeral)
  have "[0 .. 2801582267694873 - 1] @ [2801582267694873 .. 5603164535389745 - 1]
      = [0 .. 5603164535389745 - 1 :: int]" by (rule upto_join) simp_all
  moreover have "[0 .. 5603164535389745 - 1] @ [5603164535389745 .. 8404746803084618 - 1]
      = [0 .. 8404746803084618 - 1 :: int]" by (rule upto_join) simp_all
  ultimately have "[0 .. 2801582267694873 - 1] @ [2801582267694873 .. 5603164535389745 - 1]
      @ [5603164535389745 .. 8404746803084618 - 1] = [0 .. 8404746803084618 - 1 :: int]"
    by (simp only: append_assoc[symmetric])
  then have c3: "parallelFor_calls 0 8404746803084617 3 = Inr [0 .. 8404746803084617]"
    by (simp add: parallelFor_calls_def s3 segment_calls_boundary del: upto_rec_numeral)
  show ?thesis using s1 c1 s3 c3 by (intro conjI)
qed

section \<open>Failures of callbacks\<close>

text \<open>
  Claim C6 says that a failure of any worker callback is re-raised to the joining caller.
  It is not: with two segments and a callback that throws at index 0, the throw happens in
  the launched thread, its future stores it, and neither \<open>parallelFor\<close> nor
  \<open>parallelForFinish\<close> raises anything.
\<close>

theorem join_drops_worker_failure:
  "(\<lambda>i :: int. if i = 0 then Some OutOfBounds else None) 0 = Some OutOfBounds \<and>
   parallelFor_segments 0 2 2 = Inr [(0, 1), (1, 2)] \<and>
   fork 0 (\<lambda>i. if i = 0 then Some OutOfBounds else None) [(0, 1), (1, 2)]
     = ([Future (Some OutOfBounds)], None) \<and>
   parallelFor_raises 0 2 (\<lambda>i. if i = 0 then Some OutOfBounds else None) 2 = Inr None \<and>
   parallelForFinish_raises [Future (Some OutOfBounds)] = None"
proof (intro conjI)
  show s: "parallelFor_segments 0 2 2 = Inr [(0, 1), (1, 2)]"
    using parallelFor_segments_unit[of 2] by (simp add: upt_rec)
  show f: "fork 0 (\<lambda>i. if i = 0 then Some OutOfBounds else None) [(0, 1), (1, 2)]
     = ([Future (Some OutOfBounds)], None)"
    by (simp add: fork_def segment_calls_def)
  show "parallelFor_raises 0 2 (\<lambda>i. if i = 0 then Some OutOfBounds else None) 2 = Inr None"
    by (simp add: parallelFor_raises_def s f)
  show "parallelForFinish_raises [Future (Some OutOfBounds)] = None"
    by (simp add: parallelForFinish_raises_def)
qed simp

text \<open>
  The bounds of the segments never go back: \<open>sEnd\<close> grows, \<open>llround\<close> is monotone, and once
  \<open>sEnd\<close> has left the range of \<open>int64_t\<close> every later segment is empty. So no index is
  called twice.
\<close>

lemma launch_overflow:
  assumes q: "0 \<le> q"
  shows "launch_loop q k sBeg sEnd = (segs, sBeg', sEnd') \<Longrightarrow> fl sEnd = sEnd \<Longrightarrow> 0 \<le> sEnd \<Longrightarrow>
         2 ^ 63 \<le> llround sEnd \<Longrightarrow> - (2 ^ 63) \<le> sBeg \<Longrightarrow>
         concat (map (segment_calls b) (segs @ [(sBeg', llround64 sEnd')])) = []"
proof (induction k arbitrary: sBeg sEnd segs sBeg' sEnd')
  case 0
  then have e: "segs = []" "sBeg' = sBeg" "sEnd' = sEnd" by simp_all
  have r: "llround64 sEnd = - (2 ^ 63)" using 0(4) by (simp add: llround64_def)
  show ?case unfolding e using 0(5) by (simp add: r segment_calls_def)
next
  case (Suc k)
  have r: "llround64 sEnd = - (2 ^ 63)" using Suc.prems(4) by (simp add: llround64_def)
  obtain segs0 sB sE where l: "launch_loop q k (- (2 ^ 63)) (fl (sEnd + q)) = (segs0, sB, sE)"
    by (metis prod_cases3)
  have "(case launch_loop q k (llround64 sEnd) (fl (sEnd + q)) of
           (segs, sBeg', sEnd') \<Rightarrow> ((sBeg, llround64 sEnd) # segs, sBeg', sEnd')) = (segs, sBeg', sEnd')"
    using Suc.prems(1) by (simp only: launch_loop.simps)
  then have e: "segs = (sBeg, - (2 ^ 63)) # segs0" "sBeg' = sB" "sEnd' = sE"
    unfolding r l by simp_all
  have m: "sEnd \<le> fl (sEnd + q)"
    using fl_mono[of sEnd "sEnd + q"] Suc.prems(2,3) q by simp
  have "llround sEnd \<le> llround (fl (sEnd + q))" using Suc.prems(3) m by (rule llround_mono)
  then have o: "2 ^ 63 \<le> llround (fl (sEnd + q))" using Suc.prems(4) by simp
  have "0 \<le> fl (sEnd + q)" using m Suc.prems(3) by simp
  from Suc.IH[OF l fl_idem this o] have "concat (map (segment_calls b) (segs0 @ [(sB, llround64 sE)])) = []"
    by simp
  then show ?case unfolding e using Suc.prems(5) by (simp add: segment_calls_def)
qed

lemma launch_distinct:
  assumes q: "0 \<le> q"
  shows "launch_loop q k sBeg sEnd = (segs, sBeg', sEnd') \<Longrightarrow> fl sEnd = sEnd \<Longrightarrow> 0 \<le> sEnd \<Longrightarrow>
         sBeg \<le> llround sEnd \<Longrightarrow> - (2 ^ 63) \<le> sBeg \<Longrightarrow>
         distinct (concat (map (segment_calls b) (segs @ [(sBeg', llround64 sEnd')]))) \<and>
         (\<forall>x \<in> set (concat (map (segment_calls b) (segs @ [(sBeg', llround64 sEnd')]))). b + sBeg \<le> x)"
proof (induction k arbitrary: sBeg sEnd segs sBeg' sEnd')
  case 0
  then have e: "segs = []" "sBeg' = sBeg" "sEnd' = sEnd" by simp_all
  show ?case unfolding e by (simp add: segment_calls_boundary)
next
  case (Suc k)
  show ?case
  proof (cases "llround sEnd < 2 ^ 63")
    case False
    then have "2 ^ 63 \<le> llround sEnd" by simp
    from launch_overflow[OF q Suc.prems(1,2,3) this Suc.prems(5)]
    have c: "concat (map (segment_calls b) (segs @ [(sBeg', llround64 sEnd')])) = []" .
    show ?thesis unfolding c by simp
  next
    case True
    define r where "r = llround sEnd"
    have r0: "0 \<le> r" unfolding r_def using Suc.prems(3) by (rule llround_nonneg)
    have r: "llround64 sEnd = r" using True r0 by (simp add: llround64_def r_def)
    obtain segs0 sB sE where l: "launch_loop q k r (fl (sEnd + q)) = (segs0, sB, sE)"
      by (metis prod_cases3)
    have "(case launch_loop q k (llround64 sEnd) (fl (sEnd + q)) of
             (segs, sBeg', sEnd') \<Rightarrow> ((sBeg, llround64 sEnd) # segs, sBeg', sEnd')) = (segs, sBeg', sEnd')"
      using Suc.prems(1) by (simp only: launch_loop.simps)
    then have e: "segs = (sBeg, r) # segs0" "sBeg' = sB" "sEnd' = sE"
      unfolding r l by simp_all
    have m: "sEnd \<le> fl (sEnd + q)"
      using fl_mono[of sEnd "sEnd + q"] Suc.prems(2,3) q by simp
    have rm: "r \<le> llround (fl (sEnd + q))" unfolding r_def using Suc.prems(3) m by (rule llround_mono)
    have p: "0 \<le> fl (sEnd + q)" using m Suc.prems(3) by simp
    have "- (2 ^ 63) \<le> r" using r0 by simp
    from Suc.IH[OF l fl_idem p rm this]
    have ih: "distinct (concat (map (segment_calls b) (segs0 @ [(sB, llround64 sE)])))"
      "\<And>x. x \<in> set (concat (map (segment_calls b) (segs0 @ [(sB, llround64 sE)]))) \<Longrightarrow> b + r \<le> x"
      by blast+
    have sr: "sBeg \<le> r" using Suc.prems(4) by (simp add: r_def)
    have c: "concat (map (segment_calls b) (segs @ [(sBeg', llround64 sEnd')]))
        = [b + sBeg .. b + r - 1] @ concat (map (segment_calls b) (segs0 @ [(sB, llround64 sE)]))"
      unfolding e by (simp add: segment_calls_boundary)
    have d: "distinct ([b + sBeg .. b + r - 1] @ concat (map (segment_calls b) (segs0 @ [(sB, llround64 sE)])))"
    proof -
      have "set [b + sBeg .. b + r - 1] \<inter> set (concat (map (segment_calls b) (segs0 @ [(sB, llround64 sE)]))) = {}"
      proof (rule ccontr)
        assume "set [b + sBeg .. b + r - 1] \<inter> set (concat (map (segment_calls b) (segs0 @ [(sB, llround64 sE)]))) \<noteq> {}"
        then obtain x where x: "x \<in> set [b + sBeg .. b + r - 1]"
          "x \<in> set (concat (map (segment_calls b) (segs0 @ [(sB, llround64 sE)])))" by blast
        from ih(2)[OF x(2)] x(1) show False by simp
      qed
      then show ?thesis using ih(1) by (simp only: distinct_append distinct_upto simp_thms)
    qed
    have a: "\<forall>x \<in> set ([b + sBeg .. b + r - 1] @ concat (map (segment_calls b) (segs0 @ [(sB, llround64 sE)]))). b + sBeg \<le> x"
    proof
      fix x assume "x \<in> set ([b + sBeg .. b + r - 1] @ concat (map (segment_calls b) (segs0 @ [(sB, llround64 sE)])))"
      then consider "x \<in> set [b + sBeg .. b + r - 1]"
        | "x \<in> set (concat (map (segment_calls b) (segs0 @ [(sB, llround64 sE)])))"
        by (simp only: set_append Un_iff) blast
      then show "b + sBeg \<le> x"
      proof cases
        case 1 then show ?thesis by simp
      next
        case 2 from ih(2)[OF 2] sr show ?thesis by simp
      qed
    qed
    show ?thesis unfolding c using d a by (rule conjI)
  qed
qed

lemma parallelFor_segments_distinct:
  "\<exists>segs. (parallelFor_segments begin end num_segs = Inr segs \<and>
            distinct (concat (map (segment_calls begin) segs))) \<or>
          (num_segs = 0 \<and> parallelFor_segments begin end num_segs = Inl ZeroSegments)"
proof -
  define n where "n = to_size_t (end - begin)"
  define k where "k = (if n < num_segs then n else num_segs)"
  define q where "q = fl (to_double (int n) / to_double (int k))"
  show ?thesis
  proof (cases "n = 0")
    case True
    then have "parallelFor_segments begin end num_segs = Inr []"
      by (simp add: parallelFor_segments_def n_def)
    then show ?thesis by simp
  next
    case n0: False
    show ?thesis
    proof (cases "k = 0")
      case True
      then have "num_segs = 0" using n0 by (simp add: k_def split: if_splits)
      moreover have "parallelFor_segments begin end num_segs = Inl ZeroSegments"
        using n0 True unfolding parallelFor_segments_def n_def[symmetric] Let_def k_def[symmetric]
        by simp
      ultimately show ?thesis by simp
    next
      case k0: False
      obtain segs0 sB sE where l: "launch_loop q (usub k 1) 0 q = (segs0, sB, sE)"
        by (metis prod_cases3)
      have s: "parallelFor_segments begin end num_segs = Inr (segs0 @ [(sB, llround64 sE)])"
        using n0 k0 unfolding parallelFor_segments_def n_def[symmetric] Let_def k_def[symmetric]
          q_def[symmetric] by (simp add: l del: One_nat_def)
      have "0 \<le> to_double (int n) / to_double (int k)"
        by (intro divide_nonneg_nonneg to_double_nonneg) simp_all
      then have q0: "0 \<le> q" unfolding q_def by (rule fl_nonneg)
      have qi: "fl q = q" unfolding q_def by (rule fl_idem)
      have "(0::int) \<le> llround q" using q0 by (rule llround_nonneg)
      from launch_distinct[OF q0 l qi q0 this]
      have "distinct (concat (map (segment_calls begin) (segs0 @ [(sB, llround64 sE)])))" by simp
      then show ?thesis using s by blast
    qed
  qed
qed

text \<open>
  Claim C6, as amended. The only failure that reaches the caller of \<open>parallelFor\<close> is the
  first failure in the segment that the calling thread runs itself (the last one);
  \<open>parallelForFinish\<close> raises nothing; and no index is called twice, so nothing is retried.
\<close>

theorem join_raises_own_segment_only:
  assumes "begin \<le> end" "end - begin < 2 ^ 64" "1 \<le> num_segs"
  shows "\<exists>segs. parallelFor_segments begin end num_segs = Inr segs \<and>
           parallelForNoWait_segments begin end num_segs = Inr segs \<and>
           parallelFor_raises begin end fn num_segs =
             Inr (if segs = [] then None else first_failure fn (segment_calls begin (last segs))) \<and>
           parallelForFinish_raises (fst (fork begin fn segs)) = None \<and>
           distinct (concat (map (segment_calls begin) segs))"
proof -
  from parallelFor_segments_distinct[of "begin" "end" num_segs] assms(3) obtain segs where
    s: "parallelFor_segments begin end num_segs = Inr segs"
       "distinct (concat (map (segment_calls begin) segs))" by auto
  have "parallelFor_raises begin end fn num_segs =
          Inr (if segs = [] then None else first_failure fn (segment_calls begin (last segs)))"
    by (simp add: parallelFor_raises_def s(1) fork_def split: option.splits)
  moreover have "parallelForFinish_raises (fst (fork begin fn segs)) = None"
    by (simp add: parallelForFinish_raises_def)
  moreover have "parallelForNoWait_segments begin end num_segs = Inr segs"
    by (simp add: NoWait_segments_eq s(1))
  ultimately show ?thesis using s by blast
qed

theorem join_raises_own_segment_only_witness:
  "(0 :: int) \<le> 2 \<and> (2 :: int) - 0 < 2 ^ 64 \<and> (1 :: nat) \<le> 2 \<and>
   (\<exists>segs. parallelFor_segments 0 2 2 = Inr segs \<and>
           parallelForNoWait_segments 0 2 2 = Inr segs \<and>
           parallelFor_raises 0 2 (\<lambda>i. if i = 1 then Some OutOfBounds else None) 2 =
             Inr (if segs = [] then None
                  else first_failure (\<lambda>i. if i = 1 then Some OutOfBounds else None)
                         (segment_calls 0 (last segs))) \<and>
           parallelForFinish_raises
             (fst (fork 0 (\<lambda>i. if i = 1 then Some OutOfBounds else None) segs)) = None \<and>
           distinct (concat (map (segment_calls 0) segs)))"
proof -
  have h1: "(0 :: int) \<le> 2" and h2: "(2 :: int) - 0 < 2 ^ 64" and h3: "(1 :: nat) \<le> 2"
    by simp_all
  show ?thesis
    by (intro conjI) (rule h1 h2 h3 join_raises_own_segment_only[OF h1 h2 h3])+
qed

section \<open>One effective thread\<close>





section \<open>The thread cap and the size of the local segments\<close>

text \<open>
  Claim C7 says that the cap leaves every worker at least 128 elements. The cap is
  \<open>(len + 64) / 128\<close>, which rounds to the nearest: for 192 elements and two requested threads
  the effective thread count is 2 and both local segments hold 96 elements.
\<close>

theorem local_segment_below_minimum:
  "effective_threads hw 192 2 = 2 \<and>
   local_segment 192 2 0 = (0, 96) \<and> local_segment 192 2 1 = (96, 192)"
proof (intro conjI)
  show "effective_threads hw 192 2 = 2" by (simp add: effective_threads_def)
  show "local_segment 192 2 0 = (0, 96)" by code_simp
  show "local_segment 192 2 1 = (96, 192)" by code_simp
qed

text \<open>
  With \<open>threads = 0\<close> and a \<open>hardware_concurrency()\<close> of 0 the effective thread count is 0, not
  1, and \<open>parallelSort\<close> returns the buffer as it was.
\<close>

lemma effective_threads_zero: "effective_threads 0 len 0 = 0"
  by (simp add: effective_threads_def Let_def)

lemma parallelSort_no_hardware_threads:
  "parallelSort stdsort 0 garbage begin compFunc 0 = Inr \<lparr>buffer = begin, scratch = None\<rparr>"
proof -
  have "parallelFor_calls 0 0 0 = Inr []"
    by (simp add: parallelFor_calls_def parallelFor_segments_def to_size_t_def)
  then show ?thesis
    by (simp add: parallelSort_def effective_threads_zero parallelFor_def to_int64_def)
qed

section \<open>The partition table has 1024 entries\<close>

lemma getMergePaths_overflow:
  assumes "1024 \<le> threads" "threads < 2 ^ 64" "length mpi = 1024"
  shows "getMergePaths mpi src aOff aCount bOff bCount spacing compFunc threads = Inl OutOfBounds"
proof -
  have "to_int64 threads < 0 \<or> 1024 \<le> to_int64 threads"
    using assms by (auto simp: to_int64_def)
  then have "mpi_store (mpi[0 := 0]) (to_int64 threads) (to_size_t aCount) = Inl OutOfBounds"
    using assms(3) by (auto simp: mpi_store_def)
  then show ?thesis using assms(3) by (simp add: getMergePaths_def mpi_store_def)
qed

lemma parallelMerge_overflow:
  assumes "1024 \<le> threads" "threads < 2 ^ 64"
  shows "parallelMerge dst src aBeg aEnd bBeg bEnd dBeg compFunc threads = Inl OutOfBounds"
proof -
  have l: "length (replicate 1024 (0::nat)) = 1024" by simp
  show ?thesis
    unfolding parallelMerge_def Let_def
    by (simp only: getMergePaths_overflow[OF assms l] sum.case)
qed

text \<open>
  Claim C8 says that the worker count of every \<open>parallelMerge\<close> that \<open>parallelSort\<close> starts
  fits the table \<open>mpi[1024]\<close>. Nothing caps it: for 131072 elements and 1024 requested threads
  the effective thread count is 1024, the last round has one task with \<open>pmThreads = 1024\<close>, and
  a \<open>parallelMerge\<close> with 1024 workers writes \<open>mpi[1024]\<close>, outside the table.
\<close>

theorem worker_count_reaches_table_size:
  "effective_threads hw 131072 1024 = 1024 \<and>
   round_budget 1024 131072 65536 =
     Inr \<lparr>loops = 1, loStart = 131072, tasks = 1, pmThreads = 1024, loThreads = 0\<rparr> \<and>
   parallelMerge dst src aBeg aEnd bBeg bEnd dBeg compFunc 1024 = Inl OutOfBounds"
proof (intro conjI)
  show "effective_threads hw 131072 1024 = 1024" by (simp add: effective_threads_def)
  show "round_budget 1024 131072 65536 =
     Inr \<lparr>loops = 1, loStart = 131072, tasks = 1, pmThreads = 1024, loThreads = 0\<rparr>"
    by (simp add: round_budget_def iDivUp_def to_int64_def to_size_t_def)
  show "parallelMerge dst src aBeg aEnd bBeg bEnd dBeg compFunc 1024 = Inl OutOfBounds"
    by (rule parallelMerge_overflow) simp_all
qed

section \<open>The thread budget of a merge round\<close>


















end
